theory Spec2Isabelle
  imports Main "HOL-Library.Word"
begin

unbundle bit_operations_syntax

section \<open>ADS7953 sixteen-channel ADC driver (Src/ADC.c)\<close>

text \<open>
  A shallow embedding of the driver. The C globals \<open>g_sample_set\<close>,
  \<open>g_sampling_complete\<close>, \<open>g_start_time\<close> and the function-local static
  \<open>current_channel\<close> of \<open>ADS7953_ProcessSamples\<close> form one record that every operation
  takes and returns. The board support functions (\<open>Timer_GetCurrentTime\<close>,
  \<open>SPI_Transfer16\<close>, \<open>GPIO_Read\<close>) are declared in headers outside the translated
  file; their return values are parameters of the model.
\<close>

subsection \<open>Machine types and C arithmetic\<close>

type_synonym u8 = "8 word"
type_synonym u16 = "16 word"
type_synonym u32 = "32 word"

text \<open>
  What C leaves undefined is a value of the model: an array access outside the array, and
  an \<open>int\<close> result outside the 32-bit range.
\<close>

datatype fault = OutOfBounds | IntOverflow

definition fbind :: "fault + 'a \<Rightarrow> ('a \<Rightarrow> fault + 'b) \<Rightarrow> fault + 'b" where
  "fbind m f = (case m of Inl e \<Rightarrow> Inl e | Inr x \<Rightarrow> f x)"

text \<open>The value of an \<open>int\<close> expression whose mathematical result is \<open>x\<close>.\<close>

definition c_int :: "int \<Rightarrow> fault + int" where
  "c_int x = (if - 2147483648 \<le> x \<and> x \<le> 2147483647 then Inr x else Inl IntOverflow)"

text \<open>C's \<open>%\<close> on \<open>int\<close>: the quotient is truncated towards zero.\<close>

definition c_rem :: "int \<Rightarrow> int \<Rightarrow> int" where
  "c_rem a b = a - b * (sgn a * sgn b * (\<bar>a\<bar> div \<bar>b\<bar>))"

definition array_read :: "'a list \<Rightarrow> int \<Rightarrow> fault + 'a" where
  "array_read xs i =
     (if 0 \<le> i \<and> i < int (length xs) then Inr (xs ! nat i) else Inl OutOfBounds)"

definition array_write :: "'a list \<Rightarrow> int \<Rightarrow> 'a \<Rightarrow> fault + 'a list" where
  "array_write xs i v =
     (if 0 \<le> i \<and> i < int (length xs) then Inr (xs[nat i := v]) else Inl OutOfBounds)"

subsection \<open>Constants\<close>

definition ADS7953_CMD_AUTO_1 :: u16 where "ADS7953_CMD_AUTO_1 = 0x2000"
definition ADS7953_CMD_EXT_REF :: u16 where "ADS7953_CMD_EXT_REF = 0x1000"
definition ADS7953_CMD_2X_GAIN :: u16 where "ADS7953_CMD_2X_GAIN = 0x0800"
definition ADS7953_NUM_CHANNELS :: nat where "ADS7953_NUM_CHANNELS = 16"
definition QUEUE_SIZE :: int where "QUEUE_SIZE = 4"
definition ADS7953_CS_PIN :: int where "ADS7953_CS_PIN = 10"
definition ADS7953_BUSY_PIN :: int where "ADS7953_BUSY_PIN = 11"

subsection \<open>The circular queue\<close>

text \<open>
  \<open>struct Queue\<close>: \<open>uint16_t data[QUEUE_SIZE]\<close> and the three \<open>int\<close> fields. The field
  \<open>size\<close> is called \<open>size_q\<close> here.
\<close>

record Queue =
  data :: "u16 list"
  front :: int
  rear :: int
  size_q :: int

definition Queue_Init :: "Queue \<Rightarrow> Queue" where
  "Queue_Init q = q\<lparr>front := 0, rear := - 1, size_q := 0\<rparr>"

text \<open>\<open>Queue_Dequeue\<close> returns the removed value and the updated queue.\<close>

definition Queue_Dequeue :: "Queue \<Rightarrow> fault + (u16 \<times> Queue)" where
  "Queue_Dequeue q =
     (if size_q q = 0 then Inr (0, q)
      else
        fbind (array_read (data q) (front q)) (\<lambda>v.
        fbind (c_int (front q + 1)) (\<lambda>f1.
        fbind (c_int (size_q q - 1)) (\<lambda>sz.
          Inr (v, q\<lparr>front := c_rem f1 QUEUE_SIZE, size_q := sz\<rparr>)))))"

definition Queue_Enqueue :: "Queue \<Rightarrow> u16 \<Rightarrow> fault + Queue" where
  "Queue_Enqueue q v =
     fbind (if size_q q = QUEUE_SIZE
            then fbind (Queue_Dequeue q) (\<lambda>(_, q1). Inr q1)
            else Inr q) (\<lambda>q1.
     fbind (c_int (rear q1 + 1)) (\<lambda>r1.
     fbind (array_write (data q1) (c_rem r1 QUEUE_SIZE) v) (\<lambda>d.
     fbind (c_int (size_q q1 + 1)) (\<lambda>sz.
       Inr (q1\<lparr>rear := c_rem r1 QUEUE_SIZE, data := d, size_q := sz\<rparr>)))))"

text \<open>
  The summation loop of \<open>Queue_Average\<close>, \<open>for (int i = 0; i < q->size; i++)\<close>, with
  the \<open>uint32_t\<close> accumulator. Since \<open>i < q->size\<close> the increment of \<open>i\<close> stays in range.
\<close>

function Queue_Average_loop :: "Queue \<Rightarrow> int \<Rightarrow> u32 \<Rightarrow> fault + u32" where
  "Queue_Average_loop q i sum_acc =
     (if i < size_q q then
        (case c_int (front q + i) of
           Inl e \<Rightarrow> Inl e
         | Inr j \<Rightarrow>
             (case array_read (data q) (c_rem j QUEUE_SIZE) of
                Inl e \<Rightarrow> Inl e
              | Inr v \<Rightarrow> Queue_Average_loop q (i + 1) (sum_acc + ucast v)))
      else Inr sum_acc)"
  by pat_completeness auto
termination
  by (relation "measure (\<lambda>(q, i, sum_acc). nat (size_q q - i))") auto

declare Queue_Average_loop.simps [simp del]

text \<open>
  \<open>sum / q->size\<close> divides a \<open>uint32_t\<close> by an \<open>int\<close>: the divisor is converted to
  32 bits unsigned, and the quotient is cut to 16 bits by the cast.
\<close>

definition Queue_Average :: "Queue \<Rightarrow> fault + u16" where
  "Queue_Average q =
     (if size_q q = 0 then Inr 0
      else fbind (Queue_Average_loop q 0 0) (\<lambda>sum_acc.
             Inr (ucast (sum_acc div (word_of_int (size_q q) :: u32)))))"

subsection \<open>The sample set, the board and the driver state\<close>

record ADS7953_Config =
  spi_channel :: u8
  spi_speed :: u32

record ADS7953_SampleSet =
  channel_queues :: "Queue list"
  channel_averages :: "u16 list"
  timestamp :: u32

text \<open>
  The board support package is not part of the translated file. Its functions that return
  a value are parameters: the value of the \<open>k\<close>-th call (counted from 0) of each, given
  the arguments of the call. The calls that only drive the hardware are kept in a log.
\<close>

record board =
  Timer_GetCurrentTime :: "nat \<Rightarrow> u32"
  GPIO_Read :: "nat \<Rightarrow> int \<Rightarrow> int"
  SPI_Transfer16 :: "nat \<Rightarrow> int \<Rightarrow> u16 \<Rightarrow> u16"

datatype hw_event =
    Ev_SPI_Init int u32
  | Ev_GPIO_SetOutput int
  | Ev_GPIO_SetInput int
  | Ev_GPIO_SetHigh int
  | Ev_GPIO_SetLow int
  | Ev_SPI_Transfer16 int u16

text \<open>
  The globals of the file, the static \<open>current_channel\<close> of \<open>ADS7953_ProcessSamples\<close>,
  and the interaction with the board so far: how many times the clock, the pin and the bus
  have been read, and the commands sent.
\<close>

record state =
  g_sample_set :: ADS7953_SampleSet
  g_sampling_complete :: bool
  g_start_time :: u32
  current_channel :: u8
  timer_calls :: nat
  gpio_reads :: nat
  spi_transfers :: nat
  bus_log :: "hw_event list"

definition emit :: "hw_event \<Rightarrow> state \<Rightarrow> state" where
  "emit ev s = s\<lparr>bus_log := bus_log s @ [ev]\<rparr>"

definition timer_read :: "board \<Rightarrow> state \<Rightarrow> u32 \<times> state" where
  "timer_read b s =
     (Timer_GetCurrentTime b (timer_calls s), s\<lparr>timer_calls := Suc (timer_calls s)\<rparr>)"

definition spi_xfer :: "board \<Rightarrow> int \<Rightarrow> u16 \<Rightarrow> state \<Rightarrow> u16 \<times> state" where
  "spi_xfer b ch tx s =
     (SPI_Transfer16 b (spi_transfers s) ch tx,
      s\<lparr>spi_transfers := Suc (spi_transfers s),
        bus_log := bus_log s @ [Ev_SPI_Transfer16 ch tx]\<rparr>)"

text \<open>Static storage is zero-initialised before \<open>main\<close> runs.\<close>

definition zero_Queue :: Queue where
  "zero_Queue = \<lparr>data = replicate 4 0, front = 0, rear = 0, size_q = 0\<rparr>"

definition zero_SampleSet :: ADS7953_SampleSet where
  "zero_SampleSet =
     \<lparr>channel_queues = replicate ADS7953_NUM_CHANNELS zero_Queue,
      channel_averages = replicate ADS7953_NUM_CHANNELS 0,
      timestamp = 0\<rparr>"

definition power_on :: state where
  "power_on =
     \<lparr>g_sample_set = zero_SampleSet, g_sampling_complete = False, g_start_time = 0,
      current_channel = 0, timer_calls = 0, gpio_reads = 0, spi_transfers = 0,
      bus_log = []\<rparr>"

subsection \<open>The driver operations\<close>

definition ADS7953_Init :: "board \<Rightarrow> ADS7953_Config \<Rightarrow> state \<Rightarrow> state" where
  "ADS7953_Init b config s =
     (let s1 = emit (Ev_SPI_Init (uint (spi_channel config)) (spi_speed config)) s;
          s2 = emit (Ev_GPIO_SetOutput ADS7953_CS_PIN) s1;
          s3 = emit (Ev_GPIO_SetInput ADS7953_BUSY_PIN) s2;
          s4 = emit (Ev_GPIO_SetHigh ADS7953_CS_PIN) s3;
          config_cmd = ADS7953_CMD_AUTO_1 OR ADS7953_CMD_EXT_REF OR ADS7953_CMD_2X_GAIN;
          s5 = emit (Ev_GPIO_SetLow ADS7953_CS_PIN) s4;
          (_, s6) = spi_xfer b (uint (spi_channel config)) config_cmd s5;
          s7 = emit (Ev_GPIO_SetHigh ADS7953_CS_PIN) s6;
          qs = fold (\<lambda>i qs. qs[i := Queue_Init (qs ! i)]) [0..<ADS7953_NUM_CHANNELS]
                 (channel_queues zero_SampleSet)
      in s7\<lparr>g_sample_set := zero_SampleSet\<lparr>channel_queues := qs\<rparr>\<rparr>)"

definition ADS7953_StartSampling :: "board \<Rightarrow> state \<Rightarrow> state" where
  "ADS7953_StartSampling b s =
     (let s1 = s\<lparr>g_sampling_complete := False\<rparr>;
          (now, s2) = timer_read b s1;
          s3 = s2\<lparr>g_start_time := now\<rparr>;
          s4 = emit (Ev_GPIO_SetLow ADS7953_CS_PIN) s3;
          (_, s5) = spi_xfer b ADS7953_CS_PIN ADS7953_CMD_AUTO_1 s4;
          (_, s6) = spi_xfer b ADS7953_CS_PIN 0 s5
      in s6)"

text \<open>\<open>ADS7953_IsSamplingComplete\<close> returns its result and the updated state.\<close>

definition ADS7953_IsSamplingComplete :: "board \<Rightarrow> state \<Rightarrow> bool \<times> state" where
  "ADS7953_IsSamplingComplete b s =
     (let s' =
        (if \<not> g_sampling_complete s then
           (let (current_time, s1) = timer_read b s in
            if 60000 \<le> current_time - g_start_time s1
            then emit (Ev_GPIO_SetHigh ADS7953_CS_PIN) (s1\<lparr>g_sampling_complete := True\<rparr>)
            else s1)
         else s)
      in (g_sampling_complete s', s'))"

text \<open>
  \<open>ADS7953_GetResults\<close> takes the structure its argument points to and returns the
  state and that structure after the call. The C function returns \<open>void\<close>.
\<close>

definition ADS7953_GetResults :: "state \<Rightarrow> ADS7953_SampleSet \<Rightarrow> state \<times> ADS7953_SampleSet" where
  "ADS7953_GetResults s results =
     (if g_sampling_complete s then (s, g_sample_set s) else (s, results))"

text \<open>
  \<open>while (GPIO_Read(ADS7953_BUSY_PIN) == 0);\<close> from the \<open>k\<close>-th read of the pin on. The
  result is the number of reads made when the loop is left; \<open>None\<close> is a loop that is
  never left.
\<close>

partial_function (option) wait_busy :: "board \<Rightarrow> nat \<Rightarrow> nat option" where
  "wait_busy b k =
     (if GPIO_Read b k ADS7953_BUSY_PIN = 0 then wait_busy b (Suc k) else Some (Suc k))"

declare wait_busy.simps [code]

text \<open>The body of \<open>ADS7953_ProcessSamples\<close> after the wait.\<close>

definition ProcessSamples_body :: "board \<Rightarrow> state \<Rightarrow> fault + state" where
  "ProcessSamples_body b s =
     (let (result, s1) = spi_xfer b ADS7953_CS_PIN 0 s;
          c = uint (current_channel s1);
          ss = g_sample_set s1
      in
        fbind (array_read (channel_queues ss) c) (\<lambda>q.
        fbind (Queue_Enqueue q (result AND 0x0FFF)) (\<lambda>q1.
        fbind (array_write (channel_queues ss) c q1) (\<lambda>qs.
        fbind (Queue_Average q1) (\<lambda>avg.
        fbind (array_write (channel_averages ss) c avg) (\<lambda>avs.
          (let s2 = s1\<lparr>g_sample_set := ss\<lparr>channel_queues := qs, channel_averages := avs\<rparr>,
                      current_channel := word_of_int (c_rem (c + 1) (int ADS7953_NUM_CHANNELS))\<rparr>;
               s3 = (if current_channel s2 = 0 then
                       (let (now, s2') = timer_read b s2
                        in s2'\<lparr>g_sample_set :=
                                (g_sample_set s2')\<lparr>timestamp := now - g_start_time s2'\<rparr>\<rparr>)
                     else s2)
           in Inr (snd (ADS7953_IsSamplingComplete b s3)))))))))"

text \<open>
  \<open>ADS7953_ProcessSamples\<close>: \<open>None\<close> when the busy pin never reads non-zero, a fault
  when the C is undefined, the new state otherwise.
\<close>

definition ADS7953_ProcessSamples :: "board \<Rightarrow> state \<Rightarrow> (fault + state) option" where
  "ADS7953_ProcessSamples b s =
     (if \<not> g_sampling_complete s then
        (case wait_busy b (gpio_reads s) of
           None \<Rightarrow> None
         | Some n \<Rightarrow> Some (ProcessSamples_body b (s\<lparr>gpio_reads := n\<rparr>)))
      else Some (Inr s))"

subsection \<open>Specification vocabulary\<close>

text \<open>
  The elements a queue holds, oldest first: \<open>data[(front + i) % QUEUE_SIZE]\<close> for
  \<open>i\<close> from 0 below \<open>size\<close>, the elements \<open>Queue_Average\<close> reads.
\<close>

definition contents :: "Queue \<Rightarrow> u16 list" where
  "contents q = map (\<lambda>i. data q ! ((nat (front q) + i) mod 4)) [0..<nat (size_q q)]"

text \<open>
  The representation invariant of a queue: the array has its four cells, \<open>front\<close> is an
  index, \<open>size\<close> is at most the capacity, and \<open>rear\<close> is the cell before the next free
  one (\<open>- 1\<close> right after \<open>Queue_Init\<close>).
\<close>

definition Queue_inv :: "Queue \<Rightarrow> bool" where
  "Queue_inv q \<longleftrightarrow>
     length (data q) = 4 \<and> 0 \<le> front q \<and> front q < 4 \<and> 0 \<le> size_q q \<and> size_q q \<le> 4 \<and>
     - 1 \<le> rear q \<and> rear q < 4 \<and> (rear q + 1) mod 4 = (front q + size_q q) mod 4"

text \<open>A sequence of \<open>Queue_Enqueue\<close> calls, stopping at the first fault.\<close>

fun Queue_Enqueue_all :: "Queue \<Rightarrow> u16 list \<Rightarrow> fault + Queue" where
  "Queue_Enqueue_all q [] = Inr q"
| "Queue_Enqueue_all q (v # vs) = fbind (Queue_Enqueue q v) (\<lambda>q'. Queue_Enqueue_all q' vs)"

text \<open>
  The invariant of the driver state: both arrays of the sample set have their sixteen
  cells, every queue is well formed, and \<open>current_channel\<close> is a channel number.
\<close>

definition state_inv :: "state \<Rightarrow> bool" where
  "state_inv s \<longleftrightarrow>
     length (channel_queues (g_sample_set s)) = ADS7953_NUM_CHANNELS \<and>
     length (channel_averages (g_sample_set s)) = ADS7953_NUM_CHANNELS \<and>
     (\<forall>q \<in> set (channel_queues (g_sample_set s)). Queue_inv q) \<and>
     unat (current_channel s) < ADS7953_NUM_CHANNELS"

text \<open>\<open>n\<close> consecutive calls of \<open>ADS7953_ProcessSamples\<close>.\<close>

fun ProcessSamples_times :: "board \<Rightarrow> nat \<Rightarrow> state \<Rightarrow> (fault + state) option" where
  "ProcessSamples_times b 0 s = Some (Inr s)"
| "ProcessSamples_times b (Suc n) s =
     (case ADS7953_ProcessSamples b s of
        Some (Inr s') \<Rightarrow> ProcessSamples_times b n s'
      | r \<Rightarrow> r)"

text \<open>
  The calls a client makes within one session, that is, without \<open>ADS7953_Init\<close> and
  \<open>ADS7953_StartSampling\<close>, and a sequence of them.
\<close>

datatype call =
    Call_IsSamplingComplete
  | Call_ProcessSamples
  | Call_GetResults ADS7953_SampleSet

fun do_call :: "board \<Rightarrow> call \<Rightarrow> state \<Rightarrow> (fault + state) option" where
  "do_call b Call_IsSamplingComplete s = Some (Inr (snd (ADS7953_IsSamplingComplete b s)))"
| "do_call b Call_ProcessSamples s = ADS7953_ProcessSamples b s"
| "do_call b (Call_GetResults results) s = Some (Inr (fst (ADS7953_GetResults s results)))"

fun do_calls :: "board \<Rightarrow> call list \<Rightarrow> state \<Rightarrow> (fault + state) option" where
  "do_calls b [] s = Some (Inr s)"
| "do_calls b (c # cs) s =
     (case do_call b c s of
        Some (Inr s') \<Rightarrow> do_calls b cs s'
      | r \<Rightarrow> r)"

text \<open>The busy pin reads non-zero again and again: no wait lasts forever.\<close>

definition always_ready_again :: "board \<Rightarrow> bool" where
  "always_ready_again b \<longleftrightarrow> (\<forall>k. \<exists>m\<ge>k. GPIO_Read b m ADS7953_BUSY_PIN \<noteq> 0)"

text \<open>
  The state right after the transfer, the two stores and the advance of
  \<open>current_channel\<close> in \<open>ADS7953_ProcessSamples\<close>, given the queue and the average
  that were stored.
\<close>

definition after_transfer :: "state \<Rightarrow> Queue \<Rightarrow> u16 \<Rightarrow> state" where
  "after_transfer s q1 avg =
     s\<lparr>spi_transfers := Suc (spi_transfers s),
       bus_log := bus_log s @ [Ev_SPI_Transfer16 ADS7953_CS_PIN 0],
       g_sample_set := (g_sample_set s)
         \<lparr>channel_queues := (channel_queues (g_sample_set s))[unat (current_channel s) := q1],
          channel_averages := (channel_averages (g_sample_set s))[unat (current_channel s) := avg]\<rparr>,
       current_channel := word_of_int (c_rem (uint (current_channel s) + 1) 16)\<rparr>"

text \<open>Running an operation on the state of a result, unless that result is a fault or none.\<close>

definition and_then ::
  "(fault + state) option \<Rightarrow> (state \<Rightarrow> (fault + state) option) \<Rightarrow> (fault + state) option" where
  "and_then r f = (case r of Some (Inr s) \<Rightarrow> f s | _ \<Rightarrow> r)"

subsection \<open>Concrete boards and states\<close>

definition example_config :: ADS7953_Config where
  "example_config = \<lparr>spi_channel = 1, spi_speed = 1000000\<rparr>"

text \<open>
  A board whose busy pin always reads 1, whose converter answers every transfer with
  \<open>0xF123\<close>, and whose clock stands at 0.
\<close>

definition still_board :: board where
  "still_board =
     \<lparr>Timer_GetCurrentTime = (\<lambda>k. 0), GPIO_Read = (\<lambda>k pin. 1),
      SPI_Transfer16 = (\<lambda>k ch tx. 0xF123)\<rparr>"

text \<open>
  A board whose clock reads 0 at the first call, 59999 at the second and 60000 from the
  third call on.
\<close>

definition deadline_board :: board where
  "deadline_board =
     \<lparr>Timer_GetCurrentTime = (\<lambda>k. if k = 0 then 0 else if k = 1 then 59999 else 60000),
      GPIO_Read = (\<lambda>k pin. 1), SPI_Transfer16 = (\<lambda>k ch tx. 0)\<rparr>"

text \<open>A board whose clock reads 0 at the first call and 60000 from the second call on.\<close>

definition late_board :: board where
  "late_board =
     \<lparr>Timer_GetCurrentTime = (\<lambda>k. if k = 0 then 0 else 60000),
      GPIO_Read = (\<lambda>k pin. 1), SPI_Transfer16 = (\<lambda>k ch tx. 100)\<rparr>"

text \<open>
  A board whose clock reads 0 at the first five calls and 60000 from the sixth call on:
  a session started at the first call ends at the deadline check of its fifth
  \<open>ADS7953_ProcessSamples\<close>.
\<close>

definition mid_cycle_board :: board where
  "mid_cycle_board =
     \<lparr>Timer_GetCurrentTime = (\<lambda>k. if k < 5 then 0 else 60000),
      GPIO_Read = (\<lambda>k pin. 1), SPI_Transfer16 = (\<lambda>k ch tx. 100)\<rparr>"

text \<open>
  A board whose busy pin reads 0 at every even read and 1 at every odd one, whose
  converter answers the \<open>k\<close>-th transfer with \<open>0xF000 + k\<close>, and whose clock reads 0 at
  the first sixteen calls and 160 afterwards.
\<close>

definition ticking_board :: board where
  "ticking_board =
     \<lparr>Timer_GetCurrentTime = (\<lambda>k. if k < 16 then 0 else 160),
      GPIO_Read = (\<lambda>k pin. if even k then 0 else 1),
      SPI_Transfer16 = (\<lambda>k ch tx. 0xF000 + of_nat k)\<rparr>"

text \<open>The state after \<open>ADS7953_Init\<close> and \<open>ADS7953_StartSampling\<close> on a board.\<close>

definition started :: "board \<Rightarrow> state" where
  "started b = ADS7953_StartSampling b (ADS7953_Init b example_config power_on)"

text \<open>
  A first session on \<open>mid_cycle_board\<close> with five calls of \<open>ADS7953_ProcessSamples\<close>,
  then a second \<open>ADS7953_StartSampling\<close>, then the first \<open>ADS7953_ProcessSamples\<close> of
  the second session.
\<close>

definition first_session :: "(fault + state) option" where
  "first_session = ProcessSamples_times mid_cycle_board 5 (started mid_cycle_board)"

definition second_session_first_step :: "(fault + state) option" where
  "second_session_first_step =
     and_then
       (and_then first_session (\<lambda>s. Some (Inr (ADS7953_StartSampling mid_cycle_board s))))
       (ADS7953_ProcessSamples mid_cycle_board)"

text \<open>A queue holding 10, 20, 30 in a four-cell array.\<close>

definition three_queue :: Queue where
  "three_queue = \<lparr>data = [10, 20, 30, 0], front = 0, rear = 2, size_q = 3\<rparr>"

section \<open>Properties of the queue\<close>

lemma c_rem_nonneg: "0 \<le> a \<Longrightarrow> c_rem a 4 = a mod 4"
  by (simp add: c_rem_def sgn_if minus_mult_div_eq_mod)

lemma length_contents: "length (contents q) = nat (size_q q)"
  by (simp add: contents_def)

lemma Queue_Init_inv: "length (data q) = 4 \<Longrightarrow> Queue_inv (Queue_Init q)"
  by (simp add: Queue_inv_def Queue_Init_def)

lemma contents_Queue_Init: "contents (Queue_Init q) = []"
  by (simp add: contents_def Queue_Init_def)

lemma fbind_Inr: "fbind (Inr x) f = f x"
  by (simp add: fbind_def)

lemma c_int_small: "- 2147483648 \<le> x \<Longrightarrow> x \<le> 2147483647 \<Longrightarrow> c_int x = Inr x"
  by (simp add: c_int_def)

lemma nat_front_step: "0 \<le> f \<Longrightarrow> (nat ((f + 1) mod 4) + i) mod 4 = (nat f + Suc i) mod 4"
proof -
  assume f: "0 \<le> f"
  have "nat ((f + 1) mod 4) = (nat f + 1) mod 4"
    using f by (simp add: nat_mod_distrib nat_add_distrib)
  then show ?thesis
    by (simp add: mod_add_left_eq)
qed

lemma tl_map_upt: "tl (map g [0..<n]) = map (\<lambda>i. g (Suc i)) [0..<n - 1]"
proof (cases n)
  case 0
  then show ?thesis by simp
next
  case (Suc m)
  have "[0..<Suc m] = 0 # map Suc [0..<m]"
    by (simp add: upt_conv_Cons map_Suc_upt del: upt_Suc)
  then show ?thesis using Suc by (simp add: comp_def del: upt_Suc)
qed

lemma Queue_Dequeue_ok:
  assumes "Queue_inv q" "0 < size_q q"
  shows "Queue_Dequeue q =
           Inr (hd (contents q), q\<lparr>front := (front q + 1) mod 4, size_q := size_q q - 1\<rparr>)"
proof -
  have "nat (front q) mod 4 = nat (front q)"
    using assms unfolding Queue_inv_def by (intro mod_less) linarith
  then have "hd (contents q) = data q ! nat (front q)"
    using assms by (simp add: contents_def Queue_inv_def hd_map upt_conv_Cons del: upt_Suc)
  then show ?thesis
    using assms
    by (simp add: Queue_Dequeue_def Queue_inv_def array_read_def fbind_Inr c_int_small
        c_rem_nonneg QUEUE_SIZE_def)
qed

lemma Queue_inv_dequeued:
  assumes "Queue_inv q" "0 < size_q q"
  shows "Queue_inv (q\<lparr>front := (front q + 1) mod 4, size_q := size_q q - 1\<rparr>)"
  using assms unfolding Queue_inv_def
  by (simp add: mod_add_left_eq)

lemma contents_dequeued:
  assumes "Queue_inv q" "0 < size_q q"
  shows "contents (q\<lparr>front := (front q + 1) mod 4, size_q := size_q q - 1\<rparr>) = tl (contents q)"
proof -
  have "nat (size_q q - 1) = nat (size_q q) - 1" by simp
  then show ?thesis
    using assms by (simp add: contents_def tl_map_upt nat_front_step Queue_inv_def del: upt_Suc)
qed


lemma mod4_distinct:
  assumes "i < n" "n < 4"
  shows "(f + i) mod 4 \<noteq> (f + n) mod (4::nat)"
proof
  assume "(f + i) mod 4 = (f + n) mod 4"
  then have "(f + n) mod 4 = (f + i) mod 4" by simp
  then have "4 dvd (f + n) - (f + i)"
    using assms by (simp add: mod_eq_dvd_iff_nat)
  then have "4 dvd n - i" by simp
  moreover have "0 < n - i" "n - i < 4" using assms by simp_all
  ultimately show False using nat_dvd_not_less by blast
qed

lemma Queue_Enqueue_room:
  assumes "Queue_inv q" "size_q q < 4"
  shows "Queue_Enqueue q v =
           Inr (q\<lparr>rear := (rear q + 1) mod 4,
                  data := (data q)[nat ((rear q + 1) mod 4) := v],
                  size_q := size_q q + 1\<rparr>)"
  using assms
  by (simp add: Queue_Enqueue_def Queue_inv_def array_write_def fbind_Inr c_int_small
      c_rem_nonneg QUEUE_SIZE_def)

lemma Queue_inv_enqueued:
  assumes "Queue_inv q" "size_q q < 4"
  shows "Queue_inv (q\<lparr>rear := (rear q + 1) mod 4,
                  data := (data q)[nat ((rear q + 1) mod 4) := v],
                  size_q := size_q q + 1\<rparr>)"
proof -
  have "((rear q + 1) mod 4 + 1) mod 4 = ((front q + size_q q) mod 4 + 1) mod 4"
    using assms by (simp add: Queue_inv_def)
  also have "\<dots> = (front q + (size_q q + 1)) mod 4"
    by (simp add: mod_add_left_eq add.assoc)
  finally show ?thesis
    using assms by (simp add: Queue_inv_def)
qed

lemma contents_enqueued:
  assumes "Queue_inv q" "size_q q < 4"
  shows "contents (q\<lparr>rear := (rear q + 1) mod 4,
                  data := (data q)[nat ((rear q + 1) mod 4) := v],
                  size_q := size_q q + 1\<rparr>) = contents q @ [v]"
proof -
  let ?f = "nat (front q)" and ?n = "nat (size_q q)"
  have r: "nat ((rear q + 1) mod 4) = (?f + ?n) mod 4"
    using assms by (simp add: Queue_inv_def nat_mod_distrib nat_add_distrib)
  have n: "nat (size_q q + 1) = Suc ?n" "?n < 4"
    using assms unfolding Queue_inv_def by linarith+
  have old: "(data q)[(?f + ?n) mod 4 := v] ! ((?f + i) mod 4) = data q ! ((?f + i) mod 4)"
    if "i < ?n" for i
    using that n(2) mod4_distinct [of i ?n ?f] by simp
  have new: "(data q)[(?f + ?n) mod 4 := v] ! ((?f + ?n) mod 4) = v"
    using assms by (simp add: Queue_inv_def)
  show ?thesis
    by (simp add: contents_def r n(1) old new)
qed

lemma Queue_Enqueue_full:
  assumes "Queue_inv q" "size_q q = 4"
  shows "Queue_Enqueue q v =
           Queue_Enqueue (q\<lparr>front := (front q + 1) mod 4, size_q := size_q q - 1\<rparr>) v"
proof -
  have "Queue_Dequeue q =
          Inr (hd (contents q), q\<lparr>front := (front q + 1) mod 4, size_q := size_q q - 1\<rparr>)"
    using assms by (simp add: Queue_Dequeue_ok)
  then show ?thesis
    using assms by (simp add: Queue_Enqueue_def fbind_Inr QUEUE_SIZE_def)
qed

lemma Queue_Enqueue_ok:
  assumes "Queue_inv q"
  shows "\<exists>q'. Queue_Enqueue q v = Inr q' \<and> Queue_inv q' \<and>
              contents q' = (if size_q q = 4 then tl (contents q) else contents q) @ [v] \<and>
              size_q q' = (if size_q q = 4 then 4 else size_q q + 1)"
proof (cases "size_q q = 4")
  case True
  let ?q1 = "q\<lparr>front := (front q + 1) mod 4, size_q := size_q q - 1\<rparr>"
  have pos: "0 < size_q q" using True by simp
  have inv1: "Queue_inv ?q1"
    by (rule Queue_inv_dequeued [OF assms pos])
  have c1: "contents ?q1 = tl (contents q)"
    by (rule contents_dequeued [OF assms pos])
  have sz1: "size_q ?q1 < 4" using True by simp
  show ?thesis
    using True Queue_Enqueue_full [OF assms True, of v]
      Queue_Enqueue_room [OF inv1 sz1, of v] Queue_inv_enqueued [OF inv1 sz1, of v]
      contents_enqueued [OF inv1 sz1, of v] c1
    by simp
next
  case False
  then have sz: "size_q q < 4" using assms by (simp add: Queue_inv_def)
  show ?thesis
    using False Queue_Enqueue_room [OF assms sz, of v] Queue_inv_enqueued [OF assms sz, of v]
      contents_enqueued [OF assms sz, of v]
    by simp
qed

lemma contents_nth:
  assumes "Queue_inv q" "0 \<le> i" "i < size_q q"
  shows "contents q ! nat i = data q ! nat ((front q + i) mod 4)"
proof -
  have "nat ((front q + i) mod 4) = (nat (front q) + nat i) mod 4"
    using assms by (simp add: Queue_inv_def nat_mod_distrib nat_add_distrib)
  moreover have "nat i < nat (size_q q)" using assms by simp
  ultimately show ?thesis by (simp add: contents_def)
qed

lemma Queue_Average_loop_sum:
  assumes "Queue_inv q" "0 \<le> i" "i \<le> size_q q"
  shows "Queue_Average_loop q i acc =
           Inr (acc + sum_list (map ucast (drop (nat i) (contents q))))"
  using assms
proof (induction "nat (size_q q - i)" arbitrary: i acc)
  case 0
  then have "\<not> i < size_q q" and "length (contents q) \<le> nat i"
    by (simp_all add: length_contents)
  then show ?case by (subst Queue_Average_loop.simps) simp
next
  case (Suc k)
  then have lt: "i < size_q q" by linarith
  have idx: "0 \<le> (front q + i) mod 4" "(front q + i) mod 4 < int (length (data q))"
    using Suc.prems by (simp_all add: Queue_inv_def)
  have ci: "c_int (front q + i) = Inr (front q + i)"
    using Suc.prems lt by (simp add: c_int_def Queue_inv_def)
  have cr: "c_rem (front q + i) QUEUE_SIZE = (front q + i) mod 4"
    using Suc.prems by (simp add: c_rem_nonneg QUEUE_SIZE_def Queue_inv_def)
  have rd: "array_read (data q) ((front q + i) mod 4) = Inr (contents q ! nat i)"
    using idx contents_nth [OF Suc.prems(1,2) lt] by (simp add: array_read_def)
  have k: "k = nat (size_q q - (i + 1))" using Suc.hyps(2) by linarith
  have IH: "Queue_Average_loop q (i + 1) (acc + ucast (contents q ! nat i)) =
              Inr (acc + ucast (contents q ! nat i) +
                   sum_list (map ucast (drop (nat (i + 1)) (contents q))))"
    using Suc.hyps(1) [OF k Suc.prems(1)] Suc.prems(2) lt by simp
  have "nat i < length (contents q)"
    using Suc.prems(2) lt by (simp add: length_contents)
  then have dr: "drop (nat i) (contents q) = contents q ! nat i # drop (nat (i + 1)) (contents q)"
    using Suc.prems(2) by (simp add: Cons_nth_drop_Suc nat_add_distrib)
  have "Queue_Average_loop q i acc =
          Queue_Average_loop q (i + 1) (acc + ucast (contents q ! nat i))"
    using lt ci cr rd by (subst Queue_Average_loop.simps) simp
  then show ?case
    by (simp add: IH dr add.assoc)
qed

lemma unat_sum_ucast:
  "unat (sum_list (map ucast xs) :: u32) = sum_list (map unat (xs :: u16 list)) mod 2 ^ 32"
proof (induction xs)
  case Nil
  show ?case by simp
next
  case (Cons x xs)
  have "unat x < 2 ^ 16" using unsigned_less [of x] by simp
  then have "unat x < 2 ^ 32" by simp
  then have "unat (ucast x :: u32) = unat x"
    by (simp add: unsigned_ucast_eq take_bit_nat_eq_self)
  then show ?case
    using Cons by (simp add: unat_word_ariths mod_add_right_eq)
qed

lemma sum_unat_bound: "sum_list (map unat (xs :: u16 list)) \<le> length xs * 65535"
proof (induction xs)
  case Nil
  show ?case by simp
next
  case (Cons x xs)
  have "unat x < 2 ^ 16" using unsigned_less [of x] by simp
  then show ?case using Cons by simp
qed

lemma Queue_Average_ok:
  assumes "Queue_inv q" "size_q q \<noteq> 0"
  shows "\<exists>a. Queue_Average q = Inr a \<and>
             unat a = sum_list (map unat (contents q)) div nat (size_q q)"
proof -
  let ?xs = "contents q" and ?n = "nat (size_q q)"
  let ?s = "sum_list (map ucast ?xs) :: u32"
  have n: "0 < ?n" "?n \<le> 4" "length ?xs = ?n"
    using assms unfolding Queue_inv_def length_contents by linarith+
  have b: "sum_list (map unat ?xs) \<le> ?n * 65535"
    using sum_unat_bound [of ?xs] n(3) by simp
  then have s: "unat ?s = sum_list (map unat ?xs)"
    using n(2) by (simp add: unat_sum_ucast)
  have loop: "Queue_Average_loop q 0 0 = Inr ?s"
    using Queue_Average_loop_sum [OF assms(1), of 0 0] assms(1) by (simp add: Queue_inv_def)
  have d: "unat (word_of_int (size_q q) :: u32) = ?n"
    using assms(1) by (simp add: Queue_inv_def unat_eq_nat_uint uint_word_of_int)
  have q: "unat (?s div word_of_int (size_q q)) = sum_list (map unat ?xs) div ?n"
    by (simp add: unat_div s d)
  have "sum_list (map unat ?xs) div ?n \<le> (?n * 65535) div ?n"
    by (rule div_le_mono [OF b])
  then have "sum_list (map unat ?xs) div ?n \<le> 65535"
    using n(1) by simp
  then have "sum_list (map unat ?xs) div ?n < 2 ^ 16" by simp
  then have "unat (ucast (?s div word_of_int (size_q q)) :: u16) = sum_list (map unat ?xs) div ?n"
    by (simp add: unsigned_ucast_eq take_bit_nat_eq_self q)
  then show ?thesis
    using assms(2) loop by (simp add: Queue_Average_def fbind_Inr)
qed

lemma Queue_Enqueue_all_ok:
  assumes "Queue_inv q"
  shows "\<exists>q'. Queue_Enqueue_all q vs = Inr q' \<and> Queue_inv q' \<and>
              contents q' = drop (length (contents q) + length vs - 4) (contents q @ vs)"
  using assms
proof (induction vs arbitrary: q)
  case Nil
  then have "length (contents q) \<le> 4"
    unfolding length_contents Queue_inv_def by linarith
  then show ?case using Nil by simp
next
  case (Cons v vs)
  from Queue_Enqueue_ok [OF Cons.prems, of v]
  obtain q1 where e: "Queue_Enqueue q v = Inr q1" and i1: "Queue_inv q1"
    and c1: "contents q1 = (if size_q q = 4 then tl (contents q) else contents q) @ [v]"
    by blast
  from Cons.IH [OF i1]
  obtain q' where a: "Queue_Enqueue_all q1 vs = Inr q'" and i': "Queue_inv q'"
    and c': "contents q' = drop (length (contents q1) + length vs - 4) (contents q1 @ vs)"
    by blast
  have len: "length (contents q) = nat (size_q q)" by (rule length_contents)
  have "contents q' = drop (length (contents q) + length (v # vs) - 4) (contents q @ v # vs)"
  proof (cases "size_q q = 4")
    case True
    then have l4: "length (contents q) = 4" using len by simp
    then obtain x xs where xs: "contents q = x # xs" by (cases "contents q") auto
    show ?thesis using c' c1 True l4 xs by simp
  next
    case False
    then have "length (contents q) < 4"
      using Cons.prems unfolding len Queue_inv_def by linarith
    then show ?thesis using c' c1 False by simp
  qed
  then show ?case using e a i' by (simp add: fbind_Inr)
qed

section \<open>Properties of the driver operations\<close>

lemma c_rem_pos: "0 \<le> a \<Longrightarrow> 0 < b \<Longrightarrow> c_rem a b = a mod b"
  by (simp add: c_rem_def sgn_if minus_mult_div_eq_mod)

lemma wait_busy_returns:
  assumes "k \<le> m" "GPIO_Read b m ADS7953_BUSY_PIN \<noteq> 0"
  shows "\<exists>n. wait_busy b k = Some n \<and> k < n"
  using assms
proof (induction "m - k" arbitrary: k)
  case 0
  then have "GPIO_Read b k ADS7953_BUSY_PIN \<noteq> 0" by simp
  then show ?case by (subst wait_busy.simps) simp
next
  case (Suc d)
  show ?case
  proof (cases "GPIO_Read b k ADS7953_BUSY_PIN = 0")
    case True
    have "d = m - Suc k" "Suc k \<le> m" using Suc.hyps(2) by simp_all
    from Suc.hyps(1) [OF this Suc.prems(2)]
    obtain n where "wait_busy b (Suc k) = Some n" "Suc k < n" by blast
    then show ?thesis using True by (subst wait_busy.simps) simp
  next
    case False
    then show ?thesis by (subst wait_busy.simps) simp
  qed
qed

lemma Queue_Average_total:
  assumes "Queue_inv q"
  shows "\<exists>a. Queue_Average q = Inr a"
proof (cases "size_q q = 0")
  case True
  then show ?thesis by (simp add: Queue_Average_def)
next
  case False
  then show ?thesis using Queue_Average_ok [OF assms] by blast
qed

lemma IsSamplingComplete_done:
  "g_sampling_complete s \<Longrightarrow> ADS7953_IsSamplingComplete b s = (True, s)"
  by (simp add: ADS7953_IsSamplingComplete_def)

lemma IsSamplingComplete_due:
  "\<not> g_sampling_complete s \<Longrightarrow>
   60000 \<le> Timer_GetCurrentTime b (timer_calls s) - g_start_time s \<Longrightarrow>
   ADS7953_IsSamplingComplete b s =
     (True, s\<lparr>timer_calls := Suc (timer_calls s), g_sampling_complete := True,
              bus_log := bus_log s @ [Ev_GPIO_SetHigh ADS7953_CS_PIN]\<rparr>)"
  unfolding ADS7953_IsSamplingComplete_def timer_read_def emit_def Let_def prod.case
  by simp

lemma IsSamplingComplete_not_due:
  "\<not> g_sampling_complete s \<Longrightarrow>
   \<not> 60000 \<le> Timer_GetCurrentTime b (timer_calls s) - g_start_time s \<Longrightarrow>
   ADS7953_IsSamplingComplete b s = (False, s\<lparr>timer_calls := Suc (timer_calls s)\<rparr>)"
  unfolding ADS7953_IsSamplingComplete_def timer_read_def emit_def Let_def prod.case
  by simp

lemma channel_word:
  assumes "unat (c :: u8) < 16"
  shows "0 \<le> uint c" "uint c < 16" "nat (uint c) = unat c"
    "unat (word_of_int (c_rem (uint c + 1) 16) :: u8) = (unat c + 1) mod 16"
proof -
  show "0 \<le> uint c" by simp
  have ui: "uint c = int (unat c)" by simp
  show u: "uint c < 16" using assms unfolding ui by linarith
  show "nat (uint c) = unat c" by simp
  have "c_rem (uint c + 1) 16 = (uint c + 1) mod 16" by (simp add: c_rem_pos)
  moreover have "(uint c + 1) mod 16 = int ((unat c + 1) mod 16)"
    unfolding ui by (simp add: zmod_int add.commute)
  moreover have "(unat c + 1) mod 16 < 2 ^ 8"
    by (rule less_trans [of _ 16]) simp_all
  ultimately show "unat (word_of_int (c_rem (uint c + 1) 16) :: u8) = (unat c + 1) mod 16"
    by (simp add: unat_of_nat take_bit_nat_eq_self del: of_nat_add of_nat_Suc)
qed

lemma ProcessSamples_body_unfold:
  assumes inv: "state_inv s"
    and enq: "Queue_Enqueue (channel_queues (g_sample_set s) ! unat (current_channel s))
                (SPI_Transfer16 b (spi_transfers s) ADS7953_CS_PIN 0 AND 0x0FFF) = Inr q1"
    and avg: "Queue_Average q1 = Inr avg"
  shows "ProcessSamples_body b s =
           Inr (snd (ADS7953_IsSamplingComplete b
             (if unat (current_channel s) = 15
              then (after_transfer s q1 avg)
                     \<lparr>timer_calls := Suc (timer_calls s),
                      g_sample_set := (g_sample_set (after_transfer s q1 avg))
                        \<lparr>timestamp := Timer_GetCurrentTime b (timer_calls s) - g_start_time s\<rparr>\<rparr>
              else after_transfer s q1 avg)))"
proof -
  let ?c = "current_channel s"
  have c: "unat ?c < 16" and lq: "length (channel_queues (g_sample_set s)) = 16"
    and la: "length (channel_averages (g_sample_set s)) = 16"
    using inv by (simp_all add: state_inv_def ADS7953_NUM_CHANNELS_def)
  note cw = channel_word [OF c]
  have rd: "array_read (channel_queues (g_sample_set s)) (uint ?c) =
              Inr (channel_queues (g_sample_set s) ! unat ?c)"
    using cw(1,2,3) lq by (simp add: array_read_def)
  have wq: "array_write (channel_queues (g_sample_set s)) (uint ?c) q1 =
              Inr ((channel_queues (g_sample_set s))[unat ?c := q1])"
    using cw(1,2,3) lq by (simp add: array_write_def)
  have wa: "array_write (channel_averages (g_sample_set s)) (uint ?c) avg =
              Inr ((channel_averages (g_sample_set s))[unat ?c := avg])"
    using cw(1,2,3) la by (simp add: array_write_def)
  have z: "(word_of_int (c_rem (uint ?c + 1) 16) = (0 :: u8)) = (unat ?c = 15)"
  proof -
    have "(word_of_int (c_rem (uint ?c + 1) 16) = (0 :: u8)) =
          (unat (word_of_int (c_rem (uint ?c + 1) 16) :: u8) = 0)"
      by (simp add: unat_eq_0)
    also have "\<dots> = ((unat ?c + 1) mod 16 = 0)" by (simp only: cw(4))
    also have "\<dots> = (unat ?c = 15)"
    proof (cases "unat ?c = 15")
      case True
      then show ?thesis by simp
    next
      case False
      then have "unat ?c + 1 < 16" using c by simp
      then have "(unat ?c + 1) mod 16 = unat ?c + 1" by (rule mod_less)
      then show ?thesis using False by simp
    qed
    finally show ?thesis .
  qed
  show ?thesis
    unfolding ProcessSamples_body_def spi_xfer_def Let_def prod.case
    by (simp add: rd enq wq avg wa fbind_Inr z after_transfer_def timer_read_def
        ADS7953_NUM_CHANNELS_def)
qed

lemma state_inv_gpio: "state_inv (s\<lparr>gpio_reads := n\<rparr>) = state_inv s"
  by (simp add: state_inv_def)

lemma IsSamplingComplete_fields:
  assumes nc: "\<not> g_sampling_complete t"
  shows "g_sample_set (snd (ADS7953_IsSamplingComplete b t)) = g_sample_set t"
    and "current_channel (snd (ADS7953_IsSamplingComplete b t)) = current_channel t"
    and "g_start_time (snd (ADS7953_IsSamplingComplete b t)) = g_start_time t"
    and "timer_calls (snd (ADS7953_IsSamplingComplete b t)) = Suc (timer_calls t)"
    and "spi_transfers (snd (ADS7953_IsSamplingComplete b t)) = spi_transfers t"
    and "gpio_reads (snd (ADS7953_IsSamplingComplete b t)) = gpio_reads t"
    and "g_sampling_complete (snd (ADS7953_IsSamplingComplete b t)) =
           (60000 \<le> Timer_GetCurrentTime b (timer_calls t) - g_start_time t)"
    and "fst (ADS7953_IsSamplingComplete b t) =
           (60000 \<le> Timer_GetCurrentTime b (timer_calls t) - g_start_time t)"
proof -
  let ?d = "60000 \<le> Timer_GetCurrentTime b (timer_calls t) - g_start_time t"
  have "g_sample_set (snd (ADS7953_IsSamplingComplete b t)) = g_sample_set t \<and>
        current_channel (snd (ADS7953_IsSamplingComplete b t)) = current_channel t \<and>
        g_start_time (snd (ADS7953_IsSamplingComplete b t)) = g_start_time t \<and>
        timer_calls (snd (ADS7953_IsSamplingComplete b t)) = Suc (timer_calls t) \<and>
        spi_transfers (snd (ADS7953_IsSamplingComplete b t)) = spi_transfers t \<and>
        gpio_reads (snd (ADS7953_IsSamplingComplete b t)) = gpio_reads t \<and>
        g_sampling_complete (snd (ADS7953_IsSamplingComplete b t)) = ?d \<and>
        fst (ADS7953_IsSamplingComplete b t) = ?d"
  proof (cases ?d)
    case True
    show ?thesis
      unfolding IsSamplingComplete_due [OF nc True] using True by simp
  next
    case False
    show ?thesis
      unfolding IsSamplingComplete_not_due [OF nc False] using False nc by simp
  qed
  then show "g_sample_set (snd (ADS7953_IsSamplingComplete b t)) = g_sample_set t"
    and "current_channel (snd (ADS7953_IsSamplingComplete b t)) = current_channel t"
    and "g_start_time (snd (ADS7953_IsSamplingComplete b t)) = g_start_time t"
    and "timer_calls (snd (ADS7953_IsSamplingComplete b t)) = Suc (timer_calls t)"
    and "spi_transfers (snd (ADS7953_IsSamplingComplete b t)) = spi_transfers t"
    and "gpio_reads (snd (ADS7953_IsSamplingComplete b t)) = gpio_reads t"
    and "g_sampling_complete (snd (ADS7953_IsSamplingComplete b t)) = ?d"
    and "fst (ADS7953_IsSamplingComplete b t) = ?d"
    by blast+
qed


lemma ProcessSamples_step:
  assumes inv: "state_inv s" and nc: "\<not> g_sampling_complete s"
    and ready: "\<exists>m\<ge>gpio_reads s. GPIO_Read b m ADS7953_BUSY_PIN \<noteq> 0"
  shows "\<exists>s' q1 avg.
           ADS7953_ProcessSamples b s = Some (Inr s') \<and>
           Queue_Enqueue (channel_queues (g_sample_set s) ! unat (current_channel s))
             (SPI_Transfer16 b (spi_transfers s) ADS7953_CS_PIN 0 AND 0x0FFF) = Inr q1 \<and>
           Queue_Average q1 = Inr avg \<and>
           channel_queues (g_sample_set s') =
             (channel_queues (g_sample_set s))[unat (current_channel s) := q1] \<and>
           channel_averages (g_sample_set s') =
             (channel_averages (g_sample_set s))[unat (current_channel s) := avg] \<and>
           unat (current_channel s') = (unat (current_channel s) + 1) mod 16 \<and>
           timestamp (g_sample_set s') =
             (if unat (current_channel s) = 15
              then Timer_GetCurrentTime b (timer_calls s) - g_start_time s
              else timestamp (g_sample_set s)) \<and>
           g_start_time s' = g_start_time s \<and>
           timer_calls s' = timer_calls s + (if unat (current_channel s) = 15 then 2 else 1) \<and>
           g_sampling_complete s' =
             (60000 \<le> Timer_GetCurrentTime b
                (timer_calls s + (if unat (current_channel s) = 15 then 1 else 0)) - g_start_time s) \<and>
           spi_transfers s' = Suc (spi_transfers s) \<and>
           gpio_reads s < gpio_reads s' \<and>
           state_inv s'"
proof -
  let ?c = "unat (current_channel s)"
  let ?qs = "channel_queues (g_sample_set s)"
  let ?r = "SPI_Transfer16 b (spi_transfers s) ADS7953_CS_PIN 0 AND 0x0FFF"
  have c: "?c < 16" and lq: "length ?qs = 16"
    and la: "length (channel_averages (g_sample_set s)) = 16"
    and qi: "\<forall>q \<in> set ?qs. Queue_inv q"
    using inv by (simp_all add: state_inv_def ADS7953_NUM_CHANNELS_def)
  have "Queue_inv (?qs ! ?c)" using qi c lq by simp
  from Queue_Enqueue_ok [OF this, of ?r]
  obtain q1 where enq: "Queue_Enqueue (?qs ! ?c) ?r = Inr q1" and q1: "Queue_inv q1"
    by blast
  from Queue_Average_total [OF q1] obtain avg where avg: "Queue_Average q1 = Inr avg"
    by blast
  from ready obtain m where "gpio_reads s \<le> m" "GPIO_Read b m ADS7953_BUSY_PIN \<noteq> 0"
    by blast
  from wait_busy_returns [OF this]
  obtain n where w: "wait_busy b (gpio_reads s) = Some n" and n: "gpio_reads s < n"
    by blast
  let ?s0 = "s\<lparr>gpio_reads := n\<rparr>"
  let ?a = "after_transfer ?s0 q1 avg"
  define s3 where "s3 =
     (if ?c = 15
      then ?a\<lparr>timer_calls := Suc (timer_calls s),
             g_sample_set := (g_sample_set ?a)
               \<lparr>timestamp := Timer_GetCurrentTime b (timer_calls s) - g_start_time s\<rparr>\<rparr>
      else ?a)"
  define s' where "s' = snd (ADS7953_IsSamplingComplete b s3)"
  have body: "ProcessSamples_body b ?s0 = Inr s'"
    using ProcessSamples_body_unfold [of ?s0 b q1 avg] inv enq avg
    by (simp add: state_inv_gpio s3_def s'_def)
  have run: "ADS7953_ProcessSamples b s = Some (Inr s')"
    using nc w body by (simp add: ADS7953_ProcessSamples_def)
  have cw: "unat (word_of_int (c_rem (uint (current_channel s) + 1) 16) :: u8) = (?c + 1) mod 16"
    by (rule channel_word(4) [OF c])
  have nc3: "\<not> g_sampling_complete s3"
    using nc by (simp add: s3_def after_transfer_def)
  have f_q: "channel_queues (g_sample_set s3) = ?qs[?c := q1]"
    and f_a: "channel_averages (g_sample_set s3) =
                (channel_averages (g_sample_set s))[?c := avg]"
    and f_c: "unat (current_channel s3) = (?c + 1) mod 16"
    and f_t: "timestamp (g_sample_set s3) =
                (if ?c = 15 then Timer_GetCurrentTime b (timer_calls s) - g_start_time s
                 else timestamp (g_sample_set s))"
    and f_st: "g_start_time s3 = g_start_time s"
    and f_tc: "timer_calls s3 = timer_calls s + (if ?c = 15 then 1 else 0)"
    and f_sp: "spi_transfers s3 = Suc (spi_transfers s)"
    and f_g: "gpio_reads s3 = n"
    by (simp_all add: s3_def after_transfer_def cw)
  note ic = IsSamplingComplete_fields [OF nc3, of b, folded s'_def]
  have sub: "set (?qs[?c := q1]) \<subseteq> insert q1 (set ?qs)"
    by (rule set_update_subset_insert)
  have "\<forall>q \<in> set (?qs[?c := q1]). Queue_inv q"
    using qi q1 sub by blast
  moreover have "(?c + 1) mod 16 < 16" by simp
  ultimately have inv': "state_inv s'"
    unfolding state_inv_def ic f_q f_a f_c ADS7953_NUM_CHANNELS_def
    using lq la by simp
  have tc: "timer_calls s' = timer_calls s + (if ?c = 15 then 2 else 1)"
    unfolding ic f_tc by simp
  have "ADS7953_ProcessSamples b s = Some (Inr s') \<and>
        Queue_Enqueue (?qs ! ?c) ?r = Inr q1 \<and> Queue_Average q1 = Inr avg \<and>
        channel_queues (g_sample_set s') = ?qs[?c := q1] \<and>
        channel_averages (g_sample_set s') = (channel_averages (g_sample_set s))[?c := avg] \<and>
        unat (current_channel s') = (?c + 1) mod 16 \<and>
        timestamp (g_sample_set s') =
          (if ?c = 15 then Timer_GetCurrentTime b (timer_calls s) - g_start_time s
           else timestamp (g_sample_set s)) \<and>
        g_start_time s' = g_start_time s \<and>
        timer_calls s' = timer_calls s + (if ?c = 15 then 2 else 1) \<and>
        g_sampling_complete s' =
          (60000 \<le> Timer_GetCurrentTime b (timer_calls s + (if ?c = 15 then 1 else 0))
             - g_start_time s) \<and>
        spi_transfers s' = Suc (spi_transfers s) \<and>
        gpio_reads s < gpio_reads s' \<and>
        state_inv s'"
    unfolding ic f_q f_a f_c f_t f_st f_tc f_sp f_g
    using run enq avg n inv' tc [unfolded ic f_tc] by (intro conjI) (rule refl | assumption)+
  then show ?thesis by blast
qed

lemma IsSamplingComplete_fst:
  "fst (ADS7953_IsSamplingComplete b s) = g_sampling_complete (snd (ADS7953_IsSamplingComplete b s))"
  by (simp add: ADS7953_IsSamplingComplete_def Let_def)

lemma ProcessSamples_done:
  "g_sampling_complete s \<Longrightarrow> ADS7953_ProcessSamples b s = Some (Inr s)"
  by (simp add: ADS7953_ProcessSamples_def)

lemma GetResults_state: "fst (ADS7953_GetResults s results) = s"
  by (simp add: ADS7953_GetResults_def)

lemma do_call_done:
  "g_sampling_complete s \<Longrightarrow> do_call b c s = Some (Inr s)"
  by (cases c) (simp_all add: IsSamplingComplete_done ProcessSamples_done GetResults_state)

lemma do_calls_done:
  "g_sampling_complete s \<Longrightarrow> do_calls b cs s = Some (Inr s)"
  by (induction cs) (simp_all add: do_call_done)

lemma StartSampling_fields:
  "g_sampling_complete (ADS7953_StartSampling b s) = False"
  "g_start_time (ADS7953_StartSampling b s) = Timer_GetCurrentTime b (timer_calls s)"
  "timer_calls (ADS7953_StartSampling b s) = Suc (timer_calls s)"
  "current_channel (ADS7953_StartSampling b s) = current_channel s"
  "g_sample_set (ADS7953_StartSampling b s) = g_sample_set s"
  "spi_transfers (ADS7953_StartSampling b s) = Suc (Suc (spi_transfers s))"
  "gpio_reads (ADS7953_StartSampling b s) = gpio_reads s"
  by (simp_all add: ADS7953_StartSampling_def timer_read_def emit_def spi_xfer_def Let_def)

lemma Init_queues:
  "channel_queues (g_sample_set (ADS7953_Init b cfg s)) = replicate 16 (Queue_Init zero_Queue)"
  unfolding ADS7953_Init_def Let_def spi_xfer_def emit_def prod.case zero_SampleSet_def
    ADS7953_NUM_CHANNELS_def
  by (simp add: upt_rec_numeral eval_nat_numeral)

lemma Init_fields:
  "channel_averages (g_sample_set (ADS7953_Init b cfg s)) = replicate 16 0"
  "timestamp (g_sample_set (ADS7953_Init b cfg s)) = 0"
  "current_channel (ADS7953_Init b cfg s) = current_channel s"
  "g_sampling_complete (ADS7953_Init b cfg s) = g_sampling_complete s"
  "g_start_time (ADS7953_Init b cfg s) = g_start_time s"
  "timer_calls (ADS7953_Init b cfg s) = timer_calls s"
  "gpio_reads (ADS7953_Init b cfg s) = gpio_reads s"
  "spi_transfers (ADS7953_Init b cfg s) = Suc (spi_transfers s)"
  unfolding ADS7953_Init_def Let_def spi_xfer_def emit_def prod.case zero_SampleSet_def
    ADS7953_NUM_CHANNELS_def
  by simp_all

lemma state_inv_Init:
  assumes "unat (current_channel s) < 16"
  shows "state_inv (ADS7953_Init b cfg s)"
proof -
  have "Queue_inv (Queue_Init zero_Queue)"
    by (rule Queue_Init_inv) (simp add: zero_Queue_def)
  then show ?thesis
    using assms unfolding state_inv_def Init_queues Init_fields ADS7953_NUM_CHANNELS_def
    by simp
qed

lemma state_inv_StartSampling: "state_inv (ADS7953_StartSampling b s) = state_inv s"
  by (simp add: state_inv_def StartSampling_fields)

lemma state_inv_started: "state_inv (started b)"
  unfolding started_def state_inv_StartSampling
  by (rule state_inv_Init) (simp add: power_on_def)

lemma started_fields:
  "\<not> g_sampling_complete (started b)"
  "current_channel (started b) = 0"
  "timer_calls (started b) = 1"
  "g_start_time (started b) = Timer_GetCurrentTime b 0"
  "channel_queues (g_sample_set (started b)) = replicate 16 (Queue_Init zero_Queue)"
  by (simp_all add: started_def StartSampling_fields Init_fields Init_queues power_on_def)

lemma unat_and_0FFF: "unat ((w :: u16) AND 0x0FFF) = unat w mod 4096"
proof -
  have "(0x0FFF :: u16) = mask 12" by (simp add: mask_eq_exp_minus_1)
  then have "w AND 0x0FFF = take_bit 12 w" by (simp add: take_bit_eq_mask)
  then have "unat (w AND 0x0FFF) = take_bit 12 (unat w)"
    by (simp only: unsigned_take_bit_eq)
  then show ?thesis by (simp only: take_bit_eq_mod) simp
qed

lemma ProcessSamples_times_snoc:
  "ProcessSamples_times b (Suc n) s =
     and_then (ProcessSamples_times b n s) (ADS7953_ProcessSamples b)"
proof (induction n arbitrary: s)
  case 0
  show ?case by (simp add: and_then_def split: option.splits sum.splits)
next
  case (Suc n)
  show ?case
  proof (cases "ADS7953_ProcessSamples b s")
    case None
    then show ?thesis by (simp add: and_then_def)
  next
    case (Some r)
    show ?thesis
    proof (cases r)
      case (Inl e)
      then show ?thesis using Some by (simp add: and_then_def)
    next
      case (Inr s')
      have "ProcessSamples_times b (Suc (Suc n)) s = ProcessSamples_times b (Suc n) s'"
        using Some Inr by simp
      also have "\<dots> = and_then (ProcessSamples_times b n s') (ADS7953_ProcessSamples b)"
        by (rule Suc.IH)
      also have "ProcessSamples_times b n s' = ProcessSamples_times b (Suc n) s"
        using Some Inr by simp
      finally show ?thesis .
    qed
  qed
qed

lemma round_robin_prefix:
  assumes inv: "state_inv s" and nc: "\<not> g_sampling_complete s"
    and c0: "current_channel s = 0" and ready: "always_ready_again b"
    and nd: "\<forall>i<15. \<not> 60000 \<le> Timer_GetCurrentTime b (timer_calls s + i) - g_start_time s"
    and k: "k \<le> 15"
  shows "\<exists>s'. ProcessSamples_times b k s = Some (Inr s') \<and>
           state_inv s' \<and> \<not> g_sampling_complete s' \<and>
           unat (current_channel s') = k \<and>
           timer_calls s' = timer_calls s + k \<and>
           spi_transfers s' = spi_transfers s + k \<and>
           g_start_time s' = g_start_time s \<and>
           timestamp (g_sample_set s') = timestamp (g_sample_set s) \<and>
           (\<forall>j<16. if j < k
              then Queue_Enqueue (channel_queues (g_sample_set s) ! j)
                     (SPI_Transfer16 b (spi_transfers s + j) ADS7953_CS_PIN 0 AND 0x0FFF) =
                   Inr (channel_queues (g_sample_set s') ! j)
              else channel_queues (g_sample_set s') ! j = channel_queues (g_sample_set s) ! j)"
  using k
proof (induction k)
  case 0
  show ?case using inv nc c0 by simp
next
  case (Suc k)
  then have k15: "k < 15" by simp
  from Suc.IH k15
  obtain t where run: "ProcessSamples_times b k s = Some (Inr t)"
    and invt: "state_inv t" and nct: "\<not> g_sampling_complete t"
    and ct: "unat (current_channel t) = k"
    and tct: "timer_calls t = timer_calls s + k"
    and spt: "spi_transfers t = spi_transfers s + k"
    and stt: "g_start_time t = g_start_time s"
    and tst: "timestamp (g_sample_set t) = timestamp (g_sample_set s)"
    and qst: "\<forall>j<16. if j < k
              then Queue_Enqueue (channel_queues (g_sample_set s) ! j)
                     (SPI_Transfer16 b (spi_transfers s + j) ADS7953_CS_PIN 0 AND 0x0FFF) =
                   Inr (channel_queues (g_sample_set t) ! j)
              else channel_queues (g_sample_set t) ! j = channel_queues (g_sample_set s) ! j"
    by auto
  have rdy: "\<exists>m\<ge>gpio_reads t. GPIO_Read b m ADS7953_BUSY_PIN \<noteq> 0"
    using ready by (simp add: always_ready_again_def)
  have n15: "unat (current_channel t) \<noteq> 15" using ct k15 by simp
  from ProcessSamples_step [OF invt nct rdy]
  obtain s' q1 where step: "ADS7953_ProcessSamples b t = Some (Inr s')"
    and enq: "Queue_Enqueue (channel_queues (g_sample_set t) ! k)
                (SPI_Transfer16 b (spi_transfers t) ADS7953_CS_PIN 0 AND 0x0FFF) = Inr q1"
    and qs': "channel_queues (g_sample_set s') = (channel_queues (g_sample_set t))[k := q1]"
    and c': "unat (current_channel s') = (k + 1) mod 16"
    and ts': "timestamp (g_sample_set s') = timestamp (g_sample_set t)"
    and st': "g_start_time s' = g_start_time t"
    and tc': "timer_calls s' = timer_calls t + 1"
    and cmp': "g_sampling_complete s' =
                 (60000 \<le> Timer_GetCurrentTime b (timer_calls t + 0) - g_start_time t)"
    and sp': "spi_transfers s' = Suc (spi_transfers t)"
    and inv': "state_inv s'"
    unfolding ct using n15 by (auto simp only: if_False ct)
  have lq: "length (channel_queues (g_sample_set t)) = 16"
    using invt by (simp add: state_inv_def ADS7953_NUM_CHANNELS_def)
  have run': "ProcessSamples_times b (Suc k) s = Some (Inr s')"
    unfolding ProcessSamples_times_snoc run using step by (simp add: and_then_def)
  have nc': "\<not> g_sampling_complete s'"
    unfolding cmp' tct stt using nd k15 by simp
  have kmod: "(k + 1) mod 16 = Suc k" using k15 by simp
  have same: "channel_queues (g_sample_set t) ! k = channel_queues (g_sample_set s) ! k"
    using qst k15 by auto
  have qall: "\<forall>j<16. if j < Suc k
              then Queue_Enqueue (channel_queues (g_sample_set s) ! j)
                     (SPI_Transfer16 b (spi_transfers s + j) ADS7953_CS_PIN 0 AND 0x0FFF) =
                   Inr (channel_queues (g_sample_set s') ! j)
              else channel_queues (g_sample_set s') ! j = channel_queues (g_sample_set s) ! j"
  proof (intro allI impI)
    fix j :: nat
    assume j: "j < 16"
    consider "j < k" | "j = k" | "k < j" by linarith
    then show "if j < Suc k
              then Queue_Enqueue (channel_queues (g_sample_set s) ! j)
                     (SPI_Transfer16 b (spi_transfers s + j) ADS7953_CS_PIN 0 AND 0x0FFF) =
                   Inr (channel_queues (g_sample_set s') ! j)
              else channel_queues (g_sample_set s') ! j = channel_queues (g_sample_set s) ! j"
    proof cases
      case 1
      then show ?thesis using qst j by (simp add: qs')
    next
      case 2
      then show ?thesis using enq same lq k15 by (simp add: qs' spt)
    next
      case 3
      then show ?thesis using qst j by (simp add: qs')
    qed
  qed
  show ?case
    using run' inv' nc' c' kmod tc' tct sp' spt st' stt ts' tst qall by simp
qed

section \<open>The queue claims\<close>

text \<open>
  Claim C8. For every sequence \<open>vs\<close> of \<open>Queue_Enqueue\<close> calls on an initialised
  queue, no call faults and the size stays between 0 and \<open>QUEUE_SIZE\<close>; one more
  \<open>Queue_Enqueue\<close> succeeds as well, and when the queue is at capacity it drops exactly
  the oldest element before it appends the new one.
\<close>

theorem Queue_size_bounded:
  assumes "length (data q0) = 4"
  shows "\<exists>q q'. Queue_Enqueue_all (Queue_Init q0) vs = Inr q \<and>
           0 \<le> size_q q \<and> size_q q \<le> QUEUE_SIZE \<and>
           Queue_Enqueue q v = Inr q' \<and> size_q q' \<le> QUEUE_SIZE \<and>
           contents q' =
             (if size_q q = QUEUE_SIZE then tl (contents q) else contents q) @ [v]"
proof -
  have "Queue_inv (Queue_Init q0)" using assms by (rule Queue_Init_inv)
  from Queue_Enqueue_all_ok [OF this, of vs]
  obtain q where a: "Queue_Enqueue_all (Queue_Init q0) vs = Inr q" and i: "Queue_inv q"
    by blast
  from Queue_Enqueue_ok [OF i, of v]
  obtain q' where e: "Queue_Enqueue q v = Inr q'" and i': "Queue_inv q'"
    and c: "contents q' = (if size_q q = 4 then tl (contents q) else contents q) @ [v]"
    by blast
  show ?thesis
    using a e c i i' by (simp add: Queue_inv_def QUEUE_SIZE_def)
qed

theorem Queue_size_bounded_witness:
  "length (data zero_Queue) = 4 \<and>
   (\<exists>q q'. Queue_Enqueue_all (Queue_Init zero_Queue) [1, 2, 3, 4, 5, 6] = Inr q \<and>
      0 \<le> size_q q \<and> size_q q \<le> QUEUE_SIZE \<and>
      Queue_Enqueue q 7 = Inr q' \<and> size_q q' \<le> QUEUE_SIZE \<and>
      contents q' =
        (if size_q q = QUEUE_SIZE then tl (contents q) else contents q) @ [7])"
proof -
  have h: "length (data zero_Queue) = 4" by (simp add: zero_Queue_def)
  show ?thesis
    using h Queue_size_bounded [OF h, of "[1, 2, 3, 4, 5, 6]" 7] by blast
qed

text \<open>
  Claim C6. After enqueuing more than four values into an initialised queue, the queue
  holds exactly the last four of them in insertion order, and \<open>Queue_Average\<close> is
  their sum divided by 4 with the remainder dropped. The witness is the sequence
  10, 20, 30, 40, 50 with average 35.
\<close>

theorem fifo_eviction:
  assumes "length (data q0) = 4" and "4 < length vs"
  shows "\<exists>q a. Queue_Enqueue_all (Queue_Init q0) vs = Inr q \<and>
           contents q = drop (length vs - 4) vs \<and>
           length (contents q) = 4 \<and>
           Queue_Average q = Inr a \<and>
           unat a = sum_list (map unat (drop (length vs - 4) vs)) div 4"
proof -
  have "Queue_inv (Queue_Init q0)" using assms(1) by (rule Queue_Init_inv)
  from Queue_Enqueue_all_ok [OF this, of vs]
  obtain q where a: "Queue_Enqueue_all (Queue_Init q0) vs = Inr q" and i: "Queue_inv q"
    and c: "contents q = drop (length vs - 4) vs"
    by (auto simp: contents_Queue_Init)
  have l: "length (contents q) = 4" using assms(2) unfolding c by simp
  then have sz: "size_q q = 4" using i unfolding length_contents Queue_inv_def by linarith
  then have "size_q q \<noteq> 0" by simp
  from Queue_Average_ok [OF i this]
  obtain m where "Queue_Average q = Inr m"
    "unat m = sum_list (map unat (contents q)) div nat (size_q q)"
    by blast
  then show ?thesis using a c l sz by simp
qed

theorem fifo_eviction_witness:
  "length (data zero_Queue) = 4 \<and> 4 < length [10, 20, 30, 40, 50 :: u16] \<and>
   (\<exists>q. Queue_Enqueue_all (Queue_Init zero_Queue) [10, 20, 30, 40, 50] = Inr q \<and>
      contents q = [20, 30, 40, 50] \<and> Queue_Average q = Inr 35)"
proof -
  have h1: "length (data zero_Queue) = 4" by (simp add: zero_Queue_def)
  have h2: "4 < length [10, 20, 30, 40, 50 :: u16]" by simp
  from fifo_eviction [OF h1 h2]
  obtain q a where q: "Queue_Enqueue_all (Queue_Init zero_Queue) [10, 20, 30, 40, 50] = Inr q"
    "contents q = [20, 30, 40, 50]" "Queue_Average q = Inr a" and "unat a = 35"
    by auto
  then have "unat a = unat (35 :: u16)" by simp
  then have "a = 35" by (simp only: word_unat_eq_iff)
  then show ?thesis using h1 q by auto
qed

text \<open>
  Claim C7. \<open>Queue_Average\<close> of a queue of size 0 is 0, without a fault. On a
  well-formed queue that is not empty the 32-bit accumulator ends at the exact sum of
  the elements held (the sum never wraps), and the result is that sum divided by the
  number of elements, with the remainder dropped.
\<close>

theorem Queue_Average_mean:
  "(size_q q = 0 \<longrightarrow> Queue_Average q = Inr 0) \<and>
   (Queue_inv q \<and> size_q q \<noteq> 0 \<longrightarrow>
      (\<exists>acc a. Queue_Average_loop q 0 0 = Inr acc \<and>
         unat acc = sum_list (map unat (contents q)) \<and>
         Queue_Average q = Inr a \<and>
         unat a = sum_list (map unat (contents q)) div length (contents q)))"
proof (intro conjI impI)
  assume "size_q q = 0"
  then show "Queue_Average q = Inr 0" by (simp add: Queue_Average_def)
next
  assume h: "Queue_inv q \<and> size_q q \<noteq> 0"
  then have i: "Queue_inv q" and nz: "size_q q \<noteq> 0" by simp_all
  have loop: "Queue_Average_loop q 0 0 = Inr (sum_list (map ucast (contents q)))"
    using Queue_Average_loop_sum [OF i, of 0 0] i by (simp add: Queue_inv_def)
  have "length (contents q) \<le> 4"
    using i unfolding length_contents Queue_inv_def by linarith
  then have "sum_list (map unat (contents q)) \<le> 4 * 65535"
    using sum_unat_bound [of "contents q"] by simp
  then have s: "unat (sum_list (map ucast (contents q)) :: u32) = sum_list (map unat (contents q))"
    by (simp add: unat_sum_ucast)
  from Queue_Average_ok [OF i nz]
  obtain a where "Queue_Average q = Inr a"
    "unat a = sum_list (map unat (contents q)) div length (contents q)"
    by (auto simp: length_contents)
  then show "\<exists>acc a. Queue_Average_loop q 0 0 = Inr acc \<and>
         unat acc = sum_list (map unat (contents q)) \<and>
         Queue_Average q = Inr a \<and>
         unat a = sum_list (map unat (contents q)) div length (contents q)"
    using loop s by blast
qed

theorem Queue_Average_mean_witness:
  "size_q (Queue_Init zero_Queue) = 0 \<and> Queue_Average (Queue_Init zero_Queue) = Inr 0 \<and>
   Queue_inv three_queue \<and> size_q three_queue \<noteq> 0 \<and> contents three_queue = [10, 20, 30] \<and>
   Queue_Average three_queue = Inr 20"
proof -
  have e: "size_q (Queue_Init zero_Queue) = 0" by (simp add: Queue_Init_def)
  have i: "Queue_inv three_queue" by (simp add: Queue_inv_def three_queue_def)
  have nz: "size_q three_queue \<noteq> 0" by (simp add: three_queue_def)
  have c: "contents three_queue = [10, 20, 30]"
    by (simp add: contents_def three_queue_def upt_conv_Cons)
  from Queue_Average_mean [of three_queue] i nz
  obtain a where a: "Queue_Average three_queue = Inr a"
    "unat a = sum_list (map unat (contents three_queue)) div length (contents three_queue)"
    by blast
  then have "unat a = unat (20 :: u16)" by (simp add: c)
  then have "a = 20" by (simp only: word_unat_eq_iff)
  then show ?thesis
    using e i nz c a(1) Queue_Average_mean [of "Queue_Init zero_Queue"] by simp
qed

section \<open>The driver claims\<close>

text \<open>
  Claim C1, evaluated on a session that ended mid-cycle. On \<open>mid_cycle_board\<close> the
  first session ends at its fifth \<open>ADS7953_ProcessSamples\<close>, with the completion flag
  set, \<open>current_channel\<close> at 5 and one sample in each of the queues 0 to 4.
  \<open>ADS7953_StartSampling\<close> does not touch \<open>current_channel\<close>: the first
  \<open>ADS7953_ProcessSamples\<close> of the second session records into queue 5, and queue 0
  still holds its single sample.
\<close>

theorem StartSampling_keeps_channel:
  "map_option (map_sum id g_sampling_complete) first_session = Some (Inr True) \<and>
   map_option (map_sum id current_channel) first_session = Some (Inr 5) \<and>
   map_option (map_sum id (map size_q \<circ> channel_queues \<circ> g_sample_set)) first_session =
     Some (Inr [1, 1, 1, 1, 1, 0, 0, 0, 0, 0, 0, 0, 0, 0, 0, 0]) \<and>
   map_option (map_sum id (map size_q \<circ> channel_queues \<circ> g_sample_set))
     second_session_first_step =
     Some (Inr [1, 1, 1, 1, 1, 1, 0, 0, 0, 0, 0, 0, 0, 0, 0, 0])"
  by code_simp

text \<open>
  Claim C2 as stated fails: \<open>ADS7953_GetResults\<close> returns \<open>void\<close>, so all a caller
  gets back is the destination. Here a call before completion and a call after
  completion leave the same destination behind.
\<close>

theorem GetResults_no_indicator_counterexample:
  "\<not> g_sampling_complete (started late_board) \<and>
   g_sampling_complete (snd (ADS7953_IsSamplingComplete late_board (started late_board))) \<and>
   snd (ADS7953_GetResults (started late_board) (g_sample_set (started late_board))) =
   snd (ADS7953_GetResults (snd (ADS7953_IsSamplingComplete late_board (started late_board)))
          (g_sample_set (started late_board)))"
proof -
  have nc: "\<not> g_sampling_complete (started late_board)"
    by (simp add: started_def StartSampling_fields)
  have c: "g_sampling_complete (snd (ADS7953_IsSamplingComplete late_board (started late_board)))"
    by code_simp
  have "g_sample_set (snd (ADS7953_IsSamplingComplete late_board (started late_board))) =
        g_sample_set (started late_board)"
    by (rule IsSamplingComplete_fields(1) [OF nc])
  then show ?thesis using nc c by (simp add: ADS7953_GetResults_def)
qed

text \<open>
  Claim C2, amended. When the completion flag is false, \<open>ADS7953_GetResults\<close> writes
  nothing: the destination and the driver state are exactly as before the call. The
  function returns no validity indicator; readiness is what \<open>ADS7953_IsSamplingComplete\<close>
  reports.
\<close>

theorem GetResults_not_ready:
  assumes "\<not> g_sampling_complete s"
  shows "ADS7953_GetResults s results = (s, results)"
  using assms by (simp add: ADS7953_GetResults_def)

theorem GetResults_not_ready_witness:
  "\<not> g_sampling_complete (started still_board) \<and>
   ADS7953_GetResults (started still_board) zero_SampleSet =
     (started still_board, zero_SampleSet)"
proof -
  have h: "\<not> g_sampling_complete (started still_board)"
    by (simp add: started_def StartSampling_fields)
  show ?thesis using h GetResults_not_ready [OF h] by simp
qed

text \<open>
  Claim C3, amended. Start from a well-formed state with the completion flag false and
  \<open>current_channel\<close> 0, on a board whose busy pin reads non-zero again and again, and
  let the deadline not be reached at the checks of the first fifteen calls. Then for every
  \<open>k\<close> up to 16, \<open>k\<close> consecutive calls of \<open>ADS7953_ProcessSamples\<close> return, and
  after them exactly the channels below \<open>k\<close> have been recorded into, once each and in
  ascending order: the queue of channel \<open>j < k\<close> is its old queue with the masked result
  of the \<open>j\<close>-th transfer enqueued, every other queue is unchanged, and
  \<open>current_channel\<close> is \<open>k mod 16\<close>. The timestamp is unchanged after fewer than 16
  calls, and after the 16th it is the clock read at that call minus the session start.
\<close>

theorem round_robin:
  assumes inv: "state_inv s" and nc: "\<not> g_sampling_complete s"
    and c0: "current_channel s = 0" and ready: "always_ready_again b"
    and nd: "\<forall>i<15. \<not> 60000 \<le> Timer_GetCurrentTime b (timer_calls s + i) - g_start_time s"
    and k: "k \<le> 16"
  shows "\<exists>s'. ProcessSamples_times b k s = Some (Inr s') \<and>
           unat (current_channel s') = k mod 16 \<and>
           (\<forall>j<16. if j < k
              then Queue_Enqueue (channel_queues (g_sample_set s) ! j)
                     (SPI_Transfer16 b (spi_transfers s + j) ADS7953_CS_PIN 0 AND 0x0FFF) =
                   Inr (channel_queues (g_sample_set s') ! j)
              else channel_queues (g_sample_set s') ! j = channel_queues (g_sample_set s) ! j) \<and>
           timestamp (g_sample_set s') =
             (if k = 16 then Timer_GetCurrentTime b (timer_calls s + 15) - g_start_time s
              else timestamp (g_sample_set s))"
proof (cases "k \<le> 15")
  case True
  from round_robin_prefix [OF inv nc c0 ready nd True]
  show ?thesis using True by auto
next
  case False
  then have k16: "k = 16" using k by simp
  have "(15 :: nat) \<le> 15" by simp
  from round_robin_prefix [OF inv nc c0 ready nd this]
  obtain t where run: "ProcessSamples_times b 15 s = Some (Inr t)"
    and invt: "state_inv t" and nct: "\<not> g_sampling_complete t"
    and ct: "unat (current_channel t) = 15"
    and tct: "timer_calls t = timer_calls s + 15"
    and spt: "spi_transfers t = spi_transfers s + 15"
    and stt: "g_start_time t = g_start_time s"
    and qst: "\<forall>j<16. if j < 15
              then Queue_Enqueue (channel_queues (g_sample_set s) ! j)
                     (SPI_Transfer16 b (spi_transfers s + j) ADS7953_CS_PIN 0 AND 0x0FFF) =
                   Inr (channel_queues (g_sample_set t) ! j)
              else channel_queues (g_sample_set t) ! j = channel_queues (g_sample_set s) ! j"
    by auto
  have rdy: "\<exists>m\<ge>gpio_reads t. GPIO_Read b m ADS7953_BUSY_PIN \<noteq> 0"
    using ready by (simp add: always_ready_again_def)
  from ProcessSamples_step [OF invt nct rdy]
  obtain s' q1 where step: "ADS7953_ProcessSamples b t = Some (Inr s')"
    and enq0: "Queue_Enqueue (channel_queues (g_sample_set t) ! unat (current_channel t))
                (SPI_Transfer16 b (spi_transfers t) ADS7953_CS_PIN 0 AND 0x0FFF) = Inr q1"
    and qs0: "channel_queues (g_sample_set s') =
                (channel_queues (g_sample_set t))[unat (current_channel t) := q1]"
    and c0': "unat (current_channel s') = (unat (current_channel t) + 1) mod 16"
    and ts0: "timestamp (g_sample_set s') =
                (if unat (current_channel t) = 15
                 then Timer_GetCurrentTime b (timer_calls t) - g_start_time t
                 else timestamp (g_sample_set t))"
    by blast
  have enq: "Queue_Enqueue (channel_queues (g_sample_set t) ! 15)
                (SPI_Transfer16 b (spi_transfers t) ADS7953_CS_PIN 0 AND 0x0FFF) = Inr q1"
    using enq0 by (simp only: ct)
  have qs': "channel_queues (g_sample_set s') = (channel_queues (g_sample_set t))[15 := q1]"
    using qs0 by (simp only: ct)
  have c': "unat (current_channel s') = 0"
    using c0' by (simp add: ct)
  have ts': "timestamp (g_sample_set s') =
                Timer_GetCurrentTime b (timer_calls t) - g_start_time t"
    using ts0 by (simp add: ct)
  have lq: "length (channel_queues (g_sample_set t)) = 16"
    using invt by (simp add: state_inv_def ADS7953_NUM_CHANNELS_def)
  have "ProcessSamples_times b (Suc 15) s = Some (Inr s')"
    unfolding ProcessSamples_times_snoc run using step by (simp add: and_then_def)
  then have run': "ProcessSamples_times b 16 s = Some (Inr s')" by simp
  have same: "channel_queues (g_sample_set t) ! 15 = channel_queues (g_sample_set s) ! 15"
    using qst by auto
  have qall: "\<forall>j<16. Queue_Enqueue (channel_queues (g_sample_set s) ! j)
                     (SPI_Transfer16 b (spi_transfers s + j) ADS7953_CS_PIN 0 AND 0x0FFF) =
                   Inr (channel_queues (g_sample_set s') ! j)"
  proof (intro allI impI)
    fix j :: nat
    assume j: "j < 16"
    show "Queue_Enqueue (channel_queues (g_sample_set s) ! j)
            (SPI_Transfer16 b (spi_transfers s + j) ADS7953_CS_PIN 0 AND 0x0FFF) =
          Inr (channel_queues (g_sample_set s') ! j)"
    proof (cases "j = 15")
      case True
      then show ?thesis using enq same lq by (simp add: qs' spt)
    next
      case False
      then have "j < 15" using j by simp
      then show ?thesis using qst j False by (simp add: qs')
    qed
  qed
  show ?thesis
    unfolding k16 using run' c' ts' qall by (simp add: tct stt)
qed

theorem round_robin_witness:
  "state_inv (started ticking_board) \<and> \<not> g_sampling_complete (started ticking_board) \<and>
   current_channel (started ticking_board) = 0 \<and> always_ready_again ticking_board \<and>
   (\<exists>s'. ProcessSamples_times ticking_board 16 (started ticking_board) = Some (Inr s') \<and>
      unat (current_channel s') = 0 \<and>
      (\<forall>j<16. Queue_Enqueue (Queue_Init zero_Queue) (0xF000 + of_nat (3 + j) AND 0x0FFF) =
                 Inr (channel_queues (g_sample_set s') ! j)) \<and>
      timestamp (g_sample_set s') = 160)"
proof -
  have h1: "state_inv (started ticking_board)" by (rule state_inv_started)
  have h2: "\<not> g_sampling_complete (started ticking_board)" by (rule started_fields(1))
  have h3: "current_channel (started ticking_board) = 0" by (rule started_fields(2))
  have h4: "always_ready_again ticking_board"
    unfolding always_ready_again_def
  proof
    fix k :: nat
    have "k \<le> 2 * k + 1" by simp
    moreover have "GPIO_Read ticking_board (2 * k + 1) ADS7953_BUSY_PIN \<noteq> 0"
      by (simp add: ticking_board_def)
    ultimately show "\<exists>m\<ge>k. GPIO_Read ticking_board m ADS7953_BUSY_PIN \<noteq> 0" by blast
  qed
  have h5: "\<forall>i<15. \<not> 60000 \<le> Timer_GetCurrentTime ticking_board
                         (timer_calls (started ticking_board) + i)
                       - g_start_time (started ticking_board)"
    by (simp add: started_fields ticking_board_def)
  have h6: "(16 :: nat) \<le> 16" by simp
  have sp: "spi_transfers (started ticking_board) = 3"
    by (simp add: started_def StartSampling_fields Init_fields power_on_def)
  have tm: "Timer_GetCurrentTime ticking_board (timer_calls (started ticking_board) + 15)
              - g_start_time (started ticking_board) = 160"
    by (simp add: started_fields ticking_board_def)
  have q: "channel_queues (g_sample_set (started ticking_board)) ! j = Queue_Init zero_Queue"
    if "j < 16" for j
    using that by (simp add: started_fields)
  have rx: "SPI_Transfer16 ticking_board (3 + j) ADS7953_CS_PIN 0 = 0xF000 + of_nat (3 + j)"
    for j
    by (simp add: ticking_board_def)
  from round_robin [OF h1 h2 h3 h4 h5 h6]
  obtain s' where "ProcessSamples_times ticking_board 16 (started ticking_board) = Some (Inr s')"
    "unat (current_channel s') = 0"
    "\<forall>j<16. Queue_Enqueue (channel_queues (g_sample_set (started ticking_board)) ! j)
               (SPI_Transfer16 ticking_board (spi_transfers (started ticking_board) + j)
                  ADS7953_CS_PIN 0 AND 0x0FFF) =
             Inr (channel_queues (g_sample_set s') ! j)"
    "timestamp (g_sample_set s') = 160"
    unfolding tm by auto
  then have "ProcessSamples_times ticking_board 16 (started ticking_board) = Some (Inr s') \<and>
      unat (current_channel s') = 0 \<and>
      (\<forall>j<16. Queue_Enqueue (Queue_Init zero_Queue) (0xF000 + of_nat (3 + j) AND 0x0FFF) =
                 Inr (channel_queues (g_sample_set s') ! j)) \<and>
      timestamp (g_sample_set s') = 160"
    unfolding sp rx using q by simp
  then show ?thesis using h1 h2 h3 h4 by blast
qed

text \<open>
  Claim C3 as stated fails when the deadline is reached on the way. On \<open>late_board\<close>
  the session completes at the check of the first call; the other fifteen calls do
  nothing, so after 16 calls only queue 0 has been recorded into and \<open>current_channel\<close>
  is 1.
\<close>

theorem round_robin_counterexample:
  "\<not> g_sampling_complete (started late_board) \<and>
   current_channel (started late_board) = 0 \<and>
   map_option (map_sum id (map size_q \<circ> channel_queues \<circ> g_sample_set))
     (ProcessSamples_times late_board 16 (started late_board)) =
     Some (Inr [1, 0, 0, 0, 0, 0, 0, 0, 0, 0, 0, 0, 0, 0, 0, 0]) \<and>
   map_option (map_sum id current_channel)
     (ProcessSamples_times late_board 16 (started late_board)) = Some (Inr 1)"
  by code_simp

text \<open>
  Claim C4. When \<open>ADS7953_IsSamplingComplete\<close> returns true the completion flag is
  set. Once the flag is set, \<open>ADS7953_IsSamplingComplete\<close> returns true and
  \<open>ADS7953_ProcessSamples\<close> returns without changing anything: the whole state is the
  same, with every queue, every average, the timestamp, the number of transfers and the
  log of bus commands. The same holds after any sequence of calls of
  \<open>ADS7953_IsSamplingComplete\<close>, \<open>ADS7953_ProcessSamples\<close> and
  \<open>ADS7953_GetResults\<close>.
\<close>

theorem completion_monotonic:
  "(fst (ADS7953_IsSamplingComplete b s0) \<longrightarrow>
      g_sampling_complete (snd (ADS7953_IsSamplingComplete b s0))) \<and>
   (g_sampling_complete s \<longrightarrow>
      ADS7953_IsSamplingComplete b s = (True, s) \<and>
      ADS7953_ProcessSamples b s = Some (Inr s) \<and>
      do_calls b cs s = Some (Inr s))"
  using IsSamplingComplete_fst [of b s0] IsSamplingComplete_done [of s b]
    ProcessSamples_done [of s b] do_calls_done [of s b cs]
  by blast

theorem completion_monotonic_witness:
  "fst (ADS7953_IsSamplingComplete late_board (started late_board)) \<and>
   g_sampling_complete (snd (ADS7953_IsSamplingComplete late_board (started late_board))) \<and>
   ADS7953_IsSamplingComplete late_board
     (snd (ADS7953_IsSamplingComplete late_board (started late_board))) =
     (True, snd (ADS7953_IsSamplingComplete late_board (started late_board))) \<and>
   ADS7953_ProcessSamples late_board
     (snd (ADS7953_IsSamplingComplete late_board (started late_board))) =
     Some (Inr (snd (ADS7953_IsSamplingComplete late_board (started late_board)))) \<and>
   do_calls late_board
     [Call_ProcessSamples, Call_IsSamplingComplete, Call_GetResults zero_SampleSet,
      Call_ProcessSamples, Call_IsSamplingComplete]
     (snd (ADS7953_IsSamplingComplete late_board (started late_board))) =
     Some (Inr (snd (ADS7953_IsSamplingComplete late_board (started late_board))))"
proof -
  have h: "fst (ADS7953_IsSamplingComplete late_board (started late_board))"
    by code_simp
  show ?thesis
    using h completion_monotonic
      [of late_board "started late_board"
          "snd (ADS7953_IsSamplingComplete late_board (started late_board))"
          "[Call_ProcessSamples, Call_IsSamplingComplete, Call_GetResults zero_SampleSet,
            Call_ProcessSamples, Call_IsSamplingComplete]"]
    by blast
qed

text \<open>
  Claim C5. When \<open>ADS7953_StartSampling\<close> reads the clock at 0, the next
  \<open>ADS7953_IsSamplingComplete\<close> returns true exactly when the clock it reads is at
  least 60000, and after a poll that returned false the following poll does so too. The
  witness polls at 59999 (false) and then at 60000 (true).
\<close>

theorem deadline_60000:
  assumes "Timer_GetCurrentTime b (timer_calls s) = 0"
  shows "fst (ADS7953_IsSamplingComplete b (ADS7953_StartSampling b s)) =
           (60000 \<le> Timer_GetCurrentTime b (Suc (timer_calls s))) \<and>
         (\<not> 60000 \<le> Timer_GetCurrentTime b (Suc (timer_calls s)) \<longrightarrow>
            fst (ADS7953_IsSamplingComplete b
                   (snd (ADS7953_IsSamplingComplete b (ADS7953_StartSampling b s)))) =
              (60000 \<le> Timer_GetCurrentTime b (Suc (Suc (timer_calls s)))))"
proof -
  let ?s1 = "ADS7953_StartSampling b s"
  let ?s2 = "snd (ADS7953_IsSamplingComplete b ?s1)"
  have nc: "\<not> g_sampling_complete ?s1" by (simp add: StartSampling_fields)
  have st: "g_start_time ?s1 = 0" using assms by (simp add: StartSampling_fields)
  have tc: "timer_calls ?s1 = Suc (timer_calls s)" by (simp add: StartSampling_fields)
  note f1 = IsSamplingComplete_fields [OF nc, of b]
  have p1: "fst (ADS7953_IsSamplingComplete b ?s1) =
              (60000 \<le> Timer_GetCurrentTime b (Suc (timer_calls s)))"
    unfolding f1(8) st tc by simp
  have p2: "fst (ADS7953_IsSamplingComplete b ?s2) =
              (60000 \<le> Timer_GetCurrentTime b (Suc (Suc (timer_calls s))))"
    if nd: "\<not> 60000 \<le> Timer_GetCurrentTime b (Suc (timer_calls s))"
  proof -
    have nc2: "\<not> g_sampling_complete ?s2"
      unfolding f1(7) st tc using nd by simp
    note f2 = IsSamplingComplete_fields [OF nc2, of b]
    show ?thesis
      unfolding f2(8) f1(3) f1(4) st tc by simp
  qed
  show ?thesis using p1 p2 by blast
qed

theorem deadline_60000_witness:
  "Timer_GetCurrentTime deadline_board (timer_calls power_on) = 0 \<and>
   Timer_GetCurrentTime deadline_board (Suc (timer_calls power_on)) = 59999 \<and>
   Timer_GetCurrentTime deadline_board (Suc (Suc (timer_calls power_on))) = 60000 \<and>
   fst (ADS7953_IsSamplingComplete deadline_board
          (ADS7953_StartSampling deadline_board power_on)) = False \<and>
   fst (ADS7953_IsSamplingComplete deadline_board
          (snd (ADS7953_IsSamplingComplete deadline_board
                  (ADS7953_StartSampling deadline_board power_on)))) = True"
proof -
  have h: "Timer_GetCurrentTime deadline_board (timer_calls power_on) = 0"
    by (simp add: deadline_board_def power_on_def)
  have t1: "Timer_GetCurrentTime deadline_board (Suc (timer_calls power_on)) = 59999"
    and t2: "Timer_GetCurrentTime deadline_board (Suc (Suc (timer_calls power_on))) = 60000"
    by (simp_all add: deadline_board_def power_on_def)
  have n: "\<not> (60000 :: u32) \<le> 59999" by simp
  show ?thesis
    using h t1 t2 n deadline_60000 [OF h] by simp
qed

text \<open>
  Claim C9. On a well-formed state with the completion flag false and a busy pin that
  reads non-zero at some point, \<open>ADS7953_ProcessSamples\<close> returns, and the queue of
  the current channel then holds its former elements (without the oldest one when it
  was full) followed by the transfer result ANDed with \<open>0x0FFF\<close>, whose value is the
  raw result modulo 4096. The witness stores \<open>0x0123\<close> for the raw result \<open>0xF123\<close>.
\<close>

theorem ProcessSamples_masks:
  assumes "state_inv s" and "\<not> g_sampling_complete s"
    and "\<exists>m\<ge>gpio_reads s. GPIO_Read b m ADS7953_BUSY_PIN \<noteq> 0"
  shows "\<exists>s'. ADS7953_ProcessSamples b s = Some (Inr s') \<and>
           contents (channel_queues (g_sample_set s') ! unat (current_channel s)) =
             (if length (contents (channel_queues (g_sample_set s) ! unat (current_channel s))) = 4
              then tl (contents (channel_queues (g_sample_set s) ! unat (current_channel s)))
              else contents (channel_queues (g_sample_set s) ! unat (current_channel s))) @
             [SPI_Transfer16 b (spi_transfers s) ADS7953_CS_PIN 0 AND 0x0FFF] \<and>
           unat (SPI_Transfer16 b (spi_transfers s) ADS7953_CS_PIN 0 AND 0x0FFF) =
             unat (SPI_Transfer16 b (spi_transfers s) ADS7953_CS_PIN 0) mod 4096"
proof -
  let ?c = "unat (current_channel s)"
  let ?qs = "channel_queues (g_sample_set s)"
  let ?r = "SPI_Transfer16 b (spi_transfers s) ADS7953_CS_PIN 0 AND 0x0FFF"
  from ProcessSamples_step [OF assms]
  obtain s' q1 where run: "ADS7953_ProcessSamples b s = Some (Inr s')"
    and enq: "Queue_Enqueue (?qs ! ?c) ?r = Inr q1"
    and qs': "channel_queues (g_sample_set s') = ?qs[?c := q1]"
    by blast
  have c: "?c < length ?qs" and qi: "\<forall>q \<in> set ?qs. Queue_inv q"
    using assms(1) by (simp_all add: state_inv_def)
  then have i: "Queue_inv (?qs ! ?c)" by simp
  from Queue_Enqueue_ok [OF i, of ?r] enq
  have "contents q1 = (if size_q (?qs ! ?c) = 4 then tl (contents (?qs ! ?c))
                       else contents (?qs ! ?c)) @ [?r]"
    by auto
  moreover have "(size_q (?qs ! ?c) = 4) = (length (contents (?qs ! ?c)) = 4)"
    using i unfolding length_contents Queue_inv_def by linarith
  moreover have "channel_queues (g_sample_set s') ! ?c = q1"
    using c by (simp add: qs')
  ultimately show ?thesis
    using run by (simp only: unat_and_0FFF) simp
qed

theorem ProcessSamples_masks_witness:
  "state_inv (started still_board) \<and> \<not> g_sampling_complete (started still_board) \<and>
   (\<exists>m\<ge>gpio_reads (started still_board). GPIO_Read still_board m ADS7953_BUSY_PIN \<noteq> 0) \<and>
   SPI_Transfer16 still_board (spi_transfers (started still_board)) ADS7953_CS_PIN 0 = 0xF123 \<and>
   (\<exists>s'. ADS7953_ProcessSamples still_board (started still_board) = Some (Inr s') \<and>
      contents (channel_queues (g_sample_set s') ! 0) = [0x0123])"
proof -
  have h1: "state_inv (started still_board)" by (rule state_inv_started)
  have h2: "\<not> g_sampling_complete (started still_board)" by (rule started_fields(1))
  have h3: "\<exists>m\<ge>gpio_reads (started still_board). GPIO_Read still_board m ADS7953_BUSY_PIN \<noteq> 0"
    by (rule exI [of _ "gpio_reads (started still_board)"]) (simp add: still_board_def)
  have raw: "SPI_Transfer16 still_board (spi_transfers (started still_board)) ADS7953_CS_PIN 0 = 0xF123"
    by (simp add: still_board_def)
  have old: "contents (channel_queues (g_sample_set (started still_board)) ! 0) = []"
    by (simp add: started_fields contents_Queue_Init)
  have m: "(0xF123 :: u16) AND 0x0FFF = 0x0123" by simp
  show ?thesis
    using h1 h2 h3 raw ProcessSamples_masks [OF h1 h2 h3]
    by (simp add: started_fields(2) old raw m)
qed

text \<open>
  Claim C10. \<open>ADS7953_GetResults\<close> returns the driver state it was given, and when the
  completion flag is false it returns the destination it was given.
\<close>

theorem GetResults_frame:
  "fst (ADS7953_GetResults s results) = s \<and>
   (\<not> g_sampling_complete s \<longrightarrow> snd (ADS7953_GetResults s results) = results)"
  by (simp add: ADS7953_GetResults_def)

theorem GetResults_frame_witness:
  "\<not> g_sampling_complete power_on \<and>
   fst (ADS7953_GetResults power_on (zero_SampleSet\<lparr>timestamp := 7\<rparr>)) = power_on \<and>
   snd (ADS7953_GetResults power_on (zero_SampleSet\<lparr>timestamp := 7\<rparr>)) =
     zero_SampleSet\<lparr>timestamp := 7\<rparr>"
proof -
  have h: "\<not> g_sampling_complete power_on" by (simp add: power_on_def)
  show ?thesis
    using h GetResults_frame [of power_on "zero_SampleSet\<lparr>timestamp := 7\<rparr>"] by simp
qed

end
